theory Spec2Isabelle
  imports Main
begin

text \<open>
  A model of \<^verbatim>\<open>routeutil\<close>, a router on \<^verbatim>\<open>location.hash\<close>: the helper
  \<^verbatim>\<open>route\<close> with \<^verbatim>\<open>escapeRegex\<close> and \<^verbatim>\<open>param\<close>, and the class
  \<^verbatim>\<open>Router\<close> with its registry, its resolution \<^verbatim>\<open>#exec\<close> and its
  activation. What the library takes from its surroundings is a parameter of
  the model: the handlers (what they do when called), the pattern engine
  (what \<^verbatim>\<open>url.match\<close> answers) and, of the page, the fragment, the
  \<^verbatim>\<open>popstate\<close> listeners and the navigation signals. Exceptions are values:
  a function that can throw returns what it threw or an outcome beside the
  state it leaves.
\<close>

section \<open>Values of the library\<close>

text \<open>
  A RegExp object is known to the library by its identity (it is a key of the
  registry, compared by reference) and by its \<^verbatim>\<open>source\<close> text, which
  \<^verbatim>\<open>route\<close> reads. What it matches is the business of the host's pattern
  engine, which enters the model as a parameter (type \<open>engine\<close> below).
\<close>

record regexp =
  rid :: nat
  source :: string

text \<open>\<^verbatim>\<open>RouteDef = string | RegExp\<close>\<close>

datatype route_def = Str string | Re regexp

text \<open>A handler is a function of the caller; the model knows it by its identity.\<close>

type_synonym handler = nat

text \<open>
  \<^verbatim>\<open>Record<string, string>\<close>, in property order. A named group that did
  not take part in the match has the value \<^verbatim>\<open>undefined\<close>, here \<open>None\<close>.
\<close>

type_synonym params = "(string \<times> string option) list"

text \<open>\<^verbatim>\<open>ResolvedRoute = { url, params, route }\<close>\<close>

record resolved =
  r_url :: string
  r_params :: params
  r_route :: "route_def option"

abbreviation bslash :: char where
  "bslash \<equiv> CHR 0x5C"

section \<open>The route helper\<close>

text \<open>
  \<^verbatim>\<open>val.replace(/[.*+?^${}()|[\]\\]/g, "\\$&")\<close>: every character of the class is
  replaced by a backslash followed by itself.
\<close>

definition special :: "char \<Rightarrow> bool" where
  "special c = (c \<in> set ''.*+?^${}()|[]'' \<or> c = bslash)"

fun escapeRegex :: "string \<Rightarrow> string" where
  "escapeRegex [] = []"
| "escapeRegex (c # cs) =
     (if special c then bslash # c # escapeRegex cs else c # escapeRegex cs)"

text \<open>\<^verbatim>\<open>Array<string | RegExp>\<close>\<close>

datatype val = VStr string | VRe regexp

text \<open>
  The two ways \<^verbatim>\<open>route\<close> can throw: its own \<^verbatim>\<open>Error\<close> with the
  message, and the TypeError of \<^verbatim>\<open>buf[0].startsWith\<close> when \<^verbatim>\<open>buf\<close> is
  empty.
\<close>

datatype error = InvalidRoute string | TypeError

text \<open>
  The body of the \<^verbatim>\<open>for\<close> loop, with \<^verbatim>\<open>i\<close> and \<^verbatim>\<open>buf\<close> as
  arguments. \<^verbatim>\<open>values[i]\<close> beyond the end of the array is \<^verbatim>\<open>undefined\<close>,
  for which neither branch pushes.
\<close>

function route_loop :: "string list \<Rightarrow> val list \<Rightarrow> nat \<Rightarrow> string list \<Rightarrow> string list" where
  "route_loop segments vals i buf =
     (if i < length segments then
        (let buf1 = buf @ [escapeRegex (segments ! i)];
             v = (if i < length vals then Some (vals ! i) else None);
             buf2 = (case v of
                       Some (VStr s) \<Rightarrow> buf1 @ [escapeRegex s]
                     | Some (VRe r) \<Rightarrow> buf1 @ [source r]
                     | None \<Rightarrow> buf1)
         in route_loop segments vals (i + 1) buf2)
      else buf)"
  by pat_completeness auto
termination
  by (relation "measure (\<lambda>(segments, vals, i, buf). length segments - i)") auto

declare route_loop.simps [simp del]

definition startsWith :: "string \<Rightarrow> string \<Rightarrow> bool" where
  "startsWith s p = (take (length p) s = p)"

definition message :: "string \<Rightarrow> string" where
  "message joined = ''Routes must start with '' @ [CHR 0x22] @ ''#/'' @ [CHR 0x22] @ ''; route is '' @ joined"

text \<open>
  The result \<open>Inr p\<close> stands for \<^verbatim>\<open>new RegExp(p)\<close>: \<open>p\<close> is the pattern
  text handed to the constructor.
\<close>

definition route :: "string list \<Rightarrow> val list \<Rightarrow> error + string" where
  "route segments vals =
     (let buf = route_loop segments vals 0 [] in
      case buf of
        [] \<Rightarrow> Inl TypeError
      | b0 # _ \<Rightarrow>
          if \<not> startsWith b0 ''#/'' then Inl (InvalidRoute (message (concat buf)))
          else Inr (''^'' @ concat buf @ ''$''))"

text \<open>\<^verbatim>\<open>new RegExp(`(?<${name}>\\w+)`)\<close>, as its pattern text.\<close>

definition param :: "string \<Rightarrow> string" where
  "param name = ''(?<'' @ name @ ''>'' @ [bslash] @ ''w+)''"

section \<open>The pattern engine of the host\<close>

text \<open>
  The result of \<^verbatim>\<open>url.match(k)\<close> when it is not \<^verbatim>\<open>null\<close>: the indexed
  captures (the whole match first) and the \<^verbatim>\<open>groups\<close> property, which is
  \<^verbatim>\<open>undefined\<close> (\<open>None\<close>) for a pattern without named groups and otherwise
  holds one property for each named group of the pattern.
\<close>

record match_result =
  captures :: "string option list"
  groups :: "params option"

text \<open>
  \<open>eng k url\<close> is \<^verbatim>\<open>url.match(k)\<close>, \<open>None\<close> for \<^verbatim>\<open>null\<close>. It is a function
  of the pattern and the text: patterns with the flags \<^verbatim>\<open>g\<close> or \<^verbatim>\<open>y\<close>,
  whose matches depend on \<^verbatim>\<open>lastIndex\<close>, are outside the model.
\<close>

type_synonym engine = "regexp \<Rightarrow> string \<Rightarrow> match_result option"

text \<open>\<^verbatim>\<open>{ ...match.groups }\<close>: spreading \<^verbatim>\<open>undefined\<close> gives the empty object.\<close>

fun spread :: "params option \<Rightarrow> params" where
  "spread None = []"
| "spread (Some g) = g"

section \<open>The router and its host\<close>

text \<open>
  The private fields of the class. \<open>handlers\<close> is the \<^verbatim>\<open>Map\<close> in
  insertion order; \<open>aborted\<close> is \<^verbatim>\<open>this.#controller.signal.aborted\<close>.
\<close>

record router =
  handlers :: "(route_def \<times> handler) list"
  fallbackHandler :: "handler option"
  afterEachHandler :: "handler option"
  startAt :: "string option"
  aborted :: bool

text \<open>
  The router together with what it uses of the page: the fragment of the
  page's URL (\<open>None\<close> for a URL without one), the number of
  \<^verbatim>\<open>popstate\<close> listeners of this router that are attached to the window,
  and the number of navigation signals the host has queued and not yet
  delivered.
\<close>

record world =
  rt :: router
  fragment :: "string option"
  listeners :: nat
  pending :: nat

text \<open>
  Reading \<^verbatim>\<open>location.hash\<close>: the empty string for a URL whose fragment is
  missing or empty, and otherwise \<^verbatim>\<open>#\<close> followed by the fragment.
\<close>

definition hash :: "world \<Rightarrow> string" where
  "hash w = (case fragment w of None \<Rightarrow> [] | Some f \<Rightarrow> if f = [] then [] else CHR ''#'' # f)"

text \<open>
  Calling a handler is the caller's code running: it returns or throws, and
  it may have changed the router (through the public methods) and the page.
  The behaviour of the handlers is a parameter of the model.
\<close>

datatype outcome = Returns | Throws

type_synonym behaviour = "handler \<Rightarrow> resolved \<Rightarrow> world \<Rightarrow> outcome \<times> world"

text \<open>
  What an observer sees of a run: each \<^verbatim>\<open>resolved\<close> object built, and each
  call of a handler with its argument.
\<close>

datatype event = Resolution resolved | Call handler resolved

text \<open>\<^verbatim>\<open>new Router(opts)\<close>, with \<^verbatim>\<open>opts?.startAt\<close> as the argument.\<close>

definition Router :: "string option \<Rightarrow> router" where
  "Router opts_startAt =
     \<lparr>handlers = [], fallbackHandler = None, afterEachHandler = None,
      startAt = opts_startAt, aborted = False\<rparr>"

subsection \<open>Registration\<close>

text \<open>
  Keys of a \<^verbatim>\<open>Map\<close> are compared by SameValueZero: strings by their
  characters, objects by identity.
\<close>

fun same_key :: "route_def \<Rightarrow> route_def \<Rightarrow> bool" where
  "same_key (Str a) (Str b) = (a = b)"
| "same_key (Re r) (Re s) = (rid r = rid s)"
| "same_key _ _ = False"

text \<open>\<^verbatim>\<open>Map.prototype.set\<close>: an existing key keeps its place.\<close>

fun map_set :: "(route_def \<times> handler) list \<Rightarrow> route_def \<Rightarrow> handler \<Rightarrow> (route_def \<times> handler) list" where
  "map_set [] k v = [(k, v)]"
| "map_set ((k', v') # es) k v =
     (if same_key k' k then (k', v) # es else (k', v') # map_set es k v)"

fun map_delete :: "(route_def \<times> handler) list \<Rightarrow> route_def \<Rightarrow> (route_def \<times> handler) list" where
  "map_delete [] k = []"
| "map_delete ((k', v') # es) k =
     (if same_key k' k then es else (k', v') # map_delete es k)"

text \<open>\<^verbatim>\<open>RouteDef | RouteDef[]\<close> and \<^verbatim>\<open>Array.isArray(route) ? route : [route]\<close>\<close>

datatype route_arg = One route_def | Many "route_def list"

fun routeArr :: "route_arg \<Rightarrow> route_def list" where
  "routeArr (One k) = [k]"
| "routeArr (Many ks) = ks"

definition on :: "route_arg \<Rightarrow> handler \<Rightarrow> router \<Rightarrow> router" where
  "on route2 h r = r\<lparr>handlers := fold (\<lambda>i m. map_set m i h) (routeArr route2) (handlers r)\<rparr>"

definition off :: "route_arg \<Rightarrow> router \<Rightarrow> router" where
  "off route2 r = r\<lparr>handlers := fold (\<lambda>i m. map_delete m i) (routeArr route2) (handlers r)\<rparr>"

definition fallback :: "handler \<Rightarrow> router \<Rightarrow> router" where
  "fallback h r = r\<lparr>fallbackHandler := Some h\<rparr>"

definition afterEach :: "handler \<Rightarrow> router \<Rightarrow> router" where
  "afterEach h r = r\<lparr>afterEachHandler := Some h\<rparr>"

subsection \<open>Resolution\<close>

text \<open>
  The variables of \<^verbatim>\<open>#exec\<close> that the loop assigns and the rest of the
  function reads (\<^verbatim>\<open>match\<close> is read only where it is assigned).
\<close>

record loop_vars =
  lv_route2 :: "route_def option"
  lv_handler :: "handler option"
  lv_params :: "params option"

definition vars0 :: loop_vars where
  "vars0 = \<lparr>lv_route2 = None, lv_handler = None, lv_params = None\<rparr>"

text \<open>
  The \<^verbatim>\<open>for\<close> loop over \<^verbatim>\<open>this.#handlers.entries()\<close>. A handler is a
  function, so \<^verbatim>\<open>if (handler)\<close> asks whether one has been assigned.
\<close>

fun scan :: "engine \<Rightarrow> string \<Rightarrow> (route_def \<times> handler) list \<Rightarrow> loop_vars \<Rightarrow> loop_vars" where
  "scan eng u [] vs = vs"
| "scan eng u ((k, v) # es) vs =
     (let vs1 = (case k of
                   Str s \<Rightarrow> (if u = s then vs\<lparr>lv_handler := Some v\<rparr> else vs)
                 | Re r \<Rightarrow>
                     (case eng r u of
                        Some m \<Rightarrow> vs\<lparr>lv_params := Some (spread (groups m)), lv_handler := Some v\<rparr>
                      | None \<Rightarrow> vs))
      in if lv_handler vs1 \<noteq> None then vs1\<lparr>lv_route2 := Some k\<rparr>
         else scan eng u es vs1)"

text \<open>\<^verbatim>\<open>const resolved = { url, params: params ?? {}, route }\<close>\<close>

definition resolved_of :: "string \<Rightarrow> loop_vars \<Rightarrow> resolved" where
  "resolved_of u vs =
     \<lparr>r_url = u,
      r_params = (case lv_params vs of Some p \<Rightarrow> p | None \<Rightarrow> []),
      r_route = lv_route2 vs\<rparr>"

text \<open>\<^verbatim>\<open>a ?? b\<close>\<close>

fun nullish :: "'a option \<Rightarrow> 'a option \<Rightarrow> 'a option" where
  "nullish (Some a) b = Some a"
| "nullish None b = b"

text \<open>\<^verbatim>\<open>f?.(resolved)\<close>: nothing happens when \<^verbatim>\<open>f\<close> is \<^verbatim>\<open>undefined\<close>.\<close>

definition call_opt :: "behaviour \<Rightarrow> handler option \<Rightarrow> resolved \<Rightarrow> world \<Rightarrow> outcome \<times> world \<times> event list" where
  "call_opt beh f res w =
     (case f of
        None \<Rightarrow> (Returns, w, [])
      | Some h \<Rightarrow> (case beh h res w of (out, w') \<Rightarrow> (out, w', [Call h res])))"

text \<open>
  \<^verbatim>\<open>#exec(url)\<close>. An exception of the first call leaves the function, so
  the second statement is not reached; the slot \<^verbatim>\<open>#afterEachHandler\<close> is
  read after the first call has returned. Both callers leave \<^verbatim>\<open>url\<close> to
  its default, \<^verbatim>\<open>location.hash\<close>.
\<close>

definition exec :: "engine \<Rightarrow> behaviour \<Rightarrow> string \<Rightarrow> world \<Rightarrow> outcome \<times> world \<times> event list" where
  "exec eng beh u w =
     (let vs = scan eng u (handlers (rt w)) vars0;
          res = resolved_of u vs
      in case call_opt beh (nullish (lv_handler vs) (fallbackHandler (rt w))) res w of
           (Throws, w1, t1) \<Rightarrow> (Throws, w1, Resolution res # t1)
         | (Returns, w1, t1) \<Rightarrow>
             (case call_opt beh (afterEachHandler (rt w1)) res w1 of
                (out, w2, t2) \<Rightarrow> (out, w2, Resolution res # t1 @ t2)))"

subsection \<open>Activation and deactivation\<close>

text \<open>
  \<^verbatim>\<open>addEventListener("popstate", ..., { signal })\<close>: with a signal that is
  already aborted the listener is not added.
\<close>

definition addEventListener :: "world \<Rightarrow> world" where
  "addEventListener w = (if aborted (rt w) then w else w\<lparr>listeners := listeners w + 1\<rparr>)"

text \<open>
  Writing \<^verbatim>\<open>location.hash = v\<close>, as the HTML and URL standards have it.
  One leading \<^verbatim>\<open>#\<close> of the value is dropped and the rest is parsed as a
  fragment: tabs and newlines are removed, and the characters of the fragment
  percent-encode set (the controls, the space, \<^verbatim>\<open>"\<close>, \<^verbatim>\<open><\<close>, \<^verbatim>\<open>>\<close>,
  the backquote and every byte above \<^verbatim>\<open>~\<close>) are written as \<^verbatim>\<open>%\<close> and
  two hexadecimal digits. Strings are sequences of bytes here, a character
  outside ASCII being the bytes of its UTF-8 form.
\<close>

definition hex_digit :: "nat \<Rightarrow> char" where
  "hex_digit n = ''0123456789ABCDEF'' ! n"

definition percent :: "char \<Rightarrow> string" where
  "percent c = [CHR ''%'', hex_digit (of_char c div 16), hex_digit (of_char c mod 16)]"

definition fragment_encoded :: "char \<Rightarrow> bool" where
  "fragment_encoded c =
     ((of_char c :: nat) \<le> 0x20 \<or> (0x7E :: nat) < of_char c \<or> c \<in> set [CHR 0x22, CHR ''<'', CHR ''>'', CHR 0x60])"

definition tab_or_newline :: "char \<Rightarrow> bool" where
  "tab_or_newline c = (c = CHR 0x09 \<or> c = CHR 0x0A \<or> c = CHR 0x0D)"

definition fragment_of :: "string \<Rightarrow> string" where
  "fragment_of v =
     concat (map (\<lambda>c. if fragment_encoded c then percent c else [c])
       (filter (\<lambda>c. \<not> tab_or_newline c)
          (case v of [] \<Rightarrow> [] | c # cs \<Rightarrow> if c = CHR ''#'' then cs else v)))"

text \<open>
  If the fragment that the value gives is the one the URL has, nothing
  happens. Otherwise the page navigates to the new fragment, and the host
  queues one navigation signal.
\<close>

definition set_hash :: "string \<Rightarrow> world \<Rightarrow> world" where
  "set_hash v w =
     (if fragment w = Some (fragment_of v) then w
      else w\<lparr>fragment := Some (fragment_of v), pending := pending w + 1\<rparr>)"

text \<open>
  \<^verbatim>\<open>connect()\<close>. The test \<^verbatim>\<open>this.#startAt && !location.hash\<close> is one of
  truthiness: \<^verbatim>\<open>undefined\<close> and the empty string are both falsy.
\<close>

definition connect :: "engine \<Rightarrow> behaviour \<Rightarrow> world \<Rightarrow> outcome \<times> world \<times> event list" where
  "connect eng beh w =
     (let w1 = addEventListener w in
      case startAt (rt w1) of
        Some s \<Rightarrow>
          if s \<noteq> [] \<and> hash w1 = [] then (Returns, set_hash s w1, [])
          else exec eng beh (hash w1) w1
      | None \<Rightarrow> exec eng beh (hash w1) w1)"

text \<open>
  \<^verbatim>\<open>disconnect()\<close>: \<^verbatim>\<open>abort()\<close> marks the signal and removes every
  listener that was added with it.
\<close>

definition disconnect :: "world \<Rightarrow> world" where
  "disconnect w = w\<lparr>rt := (rt w)\<lparr>aborted := True\<rparr>, listeners := 0\<rparr>"

text \<open>
  One \<^verbatim>\<open>popstate\<close> event reaching the window: each attached listener of the
  router runs \<^verbatim>\<open>this.#exec()\<close>. An exception of a listener is reported
  by the host and does not stop the dispatch; listeners removed meanwhile (by
  \<^verbatim>\<open>abort()\<close>) are skipped.
\<close>

fun run_listeners :: "engine \<Rightarrow> behaviour \<Rightarrow> nat \<Rightarrow> world \<Rightarrow> world \<times> event list" where
  "run_listeners eng beh 0 w = (w, [])"
| "run_listeners eng beh (Suc n) w =
     (if aborted (rt w) then (w, [])
      else (case exec eng beh (hash w) w of
              (out, w1, t1) \<Rightarrow>
                (case run_listeners eng beh n w1 of (w2, t2) \<Rightarrow> (w2, t1 @ t2))))"

definition popstate :: "engine \<Rightarrow> behaviour \<Rightarrow> world \<Rightarrow> world \<times> event list" where
  "popstate eng beh w = run_listeners eng beh (listeners w) w"

text \<open>The host delivers one of the signals it has queued.\<close>

definition deliver :: "engine \<Rightarrow> behaviour \<Rightarrow> world \<Rightarrow> world \<times> event list" where
  "deliver eng beh w =
     (if pending w = 0 then (w, [])
      else popstate eng beh (w\<lparr>pending := pending w - 1\<rparr>))"

section \<open>A reference pattern engine\<close>

text \<open>
  The library leaves matching to the RegExp engine of the host. To run
  resolutions on concrete patterns, this section gives the semantics of the
  part of the pattern language that \<^verbatim>\<open>route\<close> and \<^verbatim>\<open>param\<close> produce and
  the examples of the documentation use: literal characters, \<^verbatim>\<open>\\<close> before a
  syntax character or \<^verbatim>\<open>/\<close>, \<^verbatim>\<open>\w\<close>, \<^verbatim>\<open>.\<close>, \<^verbatim>\<open>^\<close>, \<^verbatim>\<open>$\<close>,
  \<^verbatim>\<open>|\<close>, groups (capturing, named, \<^verbatim>\<open>(?:\<close>) and the greedy quantifiers
  \<^verbatim>\<open>*\<close>, \<^verbatim>\<open>+\<close>, \<^verbatim>\<open>?\<close>, without flags. It follows the backtracking
  semantics of ECMAScript: alternatives are tried from left to right, a
  quantifier takes as many rounds as it can, an optional round that matches
  the empty string is dropped, and the captures inside a quantified group are
  forgotten at the start of each round. A pattern outside this part is
  answered by \<open>None\<close>.
\<close>

text \<open>
  The syntax characters of the pattern language (\<^verbatim>\<open>SyntaxCharacter\<close> in
  ECMAScript): a backslash before one of them, or before \<^verbatim>\<open>/\<close>, stands
  for the character itself.
\<close>

definition syntax_char :: "char \<Rightarrow> bool" where
  "syntax_char c = (c \<in> set ''^$.*+?()[]{}|'' \<or> c = bslash)"

definition word_char :: "char \<Rightarrow> bool" where
  "word_char c = (c \<in> set ''abcdefghijklmnopqrstuvwxyzABCDEFGHIJKLMNOPQRSTUVWXYZ0123456789_'')"

text \<open>
  The pattern text as a sequence of tokens. A group name is read up to its
  \<^verbatim>\<open>>\<close> and has to be made of word characters, not beginning with a digit.
\<close>

datatype tok = TChr char | TAny | TWord | TBol | TEol | TBar
  | TOpen "string option" | TOpenNC | TClose | TStar | TPlus | TQuest

fun tokenize :: "string \<Rightarrow> tok list option" where
  "tokenize [] = Some []"
| "tokenize (c # cs) =
     (if c = bslash then
        (case cs of
           [] \<Rightarrow> None
         | d # ds \<Rightarrow>
             if d = CHR ''w'' then map_option ((#) TWord) (tokenize ds)
             else if syntax_char d \<or> d = CHR ''/'' then map_option ((#) (TChr d)) (tokenize ds)
             else None)
      else if c = CHR ''('' then
        (case cs of
           CHR ''?'' # CHR '':'' # ds \<Rightarrow> map_option ((#) TOpenNC) (tokenize ds)
         | CHR ''?'' # CHR ''<'' # ds \<Rightarrow>
             (let n = takeWhile (\<lambda>x. x \<noteq> CHR ''>'') ds in
              if n = [] \<or> length ds \<le> length n \<or> \<not> list_all word_char n
                 \<or> hd n \<in> set ''0123456789'' then None
              else map_option ((#) (TOpen (Some n))) (tokenize (drop (Suc (length n)) ds)))
         | CHR ''?'' # ds \<Rightarrow> None
         | _ \<Rightarrow> map_option ((#) (TOpen None)) (tokenize cs))
      else if c = CHR '')'' then map_option ((#) TClose) (tokenize cs)
      else if c = CHR ''|'' then map_option ((#) TBar) (tokenize cs)
      else if c = CHR ''*'' then map_option ((#) TStar) (tokenize cs)
      else if c = CHR ''+'' then map_option ((#) TPlus) (tokenize cs)
      else if c = CHR ''?'' then map_option ((#) TQuest) (tokenize cs)
      else if c = CHR ''^'' then map_option ((#) TBol) (tokenize cs)
      else if c = CHR ''$'' then map_option ((#) TEol) (tokenize cs)
      else if c = CHR ''.'' then map_option ((#) TAny) (tokenize cs)
      else if syntax_char c then None
      else map_option ((#) (TChr c)) (tokenize cs))"

text \<open>
  The pattern as a tree. Capturing groups carry their number, counted by
  their opening parentheses from the left, and their name if they have one.
\<close>

datatype rx = Chr char | AnyChar | WordChar | Bol | Eol | Empty
  | Cat rx rx | Alt rx rx | Grp nat "string option" rx | Star rx | Plus rx | Opt rx

text \<open>
  The parser reads the tokens from left to right and keeps a stack of the
  groups that are open, each with the alternatives it has finished and the
  items of the alternative it is in. A quantifier applies to the item before
  it, once.
\<close>

datatype kind = Top | Capturing nat "string option" | NonCapturing

record frame =
  f_kind :: kind
  f_alts :: "rx list"
  f_cur :: "rx list"
  f_quant :: bool

definition frame0 :: "kind \<Rightarrow> frame" where
  "frame0 k = \<lparr>f_kind = k, f_alts = [], f_cur = [], f_quant = False\<rparr>"

definition seq_rx :: "rx list \<Rightarrow> rx" where
  "seq_rx xs = foldr Cat xs Empty"

fun alts_rx :: "rx list \<Rightarrow> rx" where
  "alts_rx [] = Empty"
| "alts_rx [a] = a"
| "alts_rx (a # as) = Alt a (alts_rx as)"

definition close_frame :: "frame \<Rightarrow> rx" where
  "close_frame f = alts_rx (f_alts f @ [seq_rx (f_cur f)])"

definition push_item :: "rx \<Rightarrow> bool \<Rightarrow> frame \<Rightarrow> frame" where
  "push_item x q f = f\<lparr>f_cur := f_cur f @ [x], f_quant := q\<rparr>"

fun quantify :: "(rx \<Rightarrow> rx) \<Rightarrow> frame list \<times> nat \<Rightarrow> (frame list \<times> nat) option" where
  "quantify q ([], n) = None"
| "quantify q (f # fs, n) =
     (if f_quant f \<and> f_cur f \<noteq> []
      then Some (f\<lparr>f_cur := butlast (f_cur f) @ [q (last (f_cur f))], f_quant := False\<rparr> # fs, n)
      else None)"

fun pstep :: "tok \<Rightarrow> frame list \<times> nat \<Rightarrow> (frame list \<times> nat) option" where
  "pstep t ([], n) = None"
| "pstep (TChr c) (f # fs, n) = Some (push_item (Chr c) True f # fs, n)"
| "pstep TAny (f # fs, n) = Some (push_item AnyChar True f # fs, n)"
| "pstep TWord (f # fs, n) = Some (push_item WordChar True f # fs, n)"
| "pstep TBol (f # fs, n) = Some (push_item Bol False f # fs, n)"
| "pstep TEol (f # fs, n) = Some (push_item Eol False f # fs, n)"
| "pstep TBar (f # fs, n) =
     Some (f\<lparr>f_alts := f_alts f @ [seq_rx (f_cur f)], f_cur := [], f_quant := False\<rparr> # fs, n)"
| "pstep (TOpen name) (f # fs, n) = Some (frame0 (Capturing (Suc n) name) # f # fs, Suc n)"
| "pstep TOpenNC (f # fs, n) = Some (frame0 NonCapturing # f # fs, n)"
| "pstep TClose (f # fs, n) =
     (case (f_kind f, fs) of
        (Capturing i name, g # gs) \<Rightarrow> Some (push_item (Grp i name (close_frame f)) True g # gs, n)
      | (NonCapturing, g # gs) \<Rightarrow> Some (push_item (close_frame f) True g # gs, n)
      | _ \<Rightarrow> None)"
| "pstep TStar st = quantify Star st"
| "pstep TPlus st = quantify Plus st"
| "pstep TQuest st = quantify Opt st"

fun psteps :: "tok list \<Rightarrow> frame list \<times> nat \<Rightarrow> (frame list \<times> nat) option" where
  "psteps [] st = Some st"
| "psteps (t # ts) st = (case pstep t st of None \<Rightarrow> None | Some st' \<Rightarrow> psteps ts st')"

text \<open>The capturing groups of a pattern, from left to right, and the names among them.\<close>

fun grps :: "rx \<Rightarrow> (nat \<times> string option) list" where
  "grps (Cat a b) = grps a @ grps b"
| "grps (Alt a b) = grps a @ grps b"
| "grps (Grp i n r) = (i, n) # grps r"
| "grps (Star r) = grps r"
| "grps (Plus r) = grps r"
| "grps (Opt r) = grps r"
| "grps _ = []"

definition group_names :: "rx \<Rightarrow> string list" where
  "group_names r = concat (map (\<lambda>(i, n). case n of None \<Rightarrow> [] | Some nm \<Rightarrow> [nm]) (grps r))"

text \<open>
  A pattern is read when every group that was opened has been closed. A
  pattern in which two groups have the same name is outside the part that is
  modelled (the language allows it in different alternatives only).
\<close>

definition parse :: "string \<Rightarrow> rx option" where
  "parse p =
     (case tokenize p of
        None \<Rightarrow> None
      | Some ts \<Rightarrow>
          (case psteps ts ([frame0 Top], 0) of
             Some ([f], n) \<Rightarrow>
               if distinct (group_names (close_frame f)) then Some (close_frame f) else None
           | _ \<Rightarrow> None))"

text \<open>
  The matcher. A state is a position in the input and the captures made so
  far; matching a pattern from a state gives the states in which it can end,
  in the order in which backtracking tries them.
\<close>

type_synonym caps = "(nat \<times> string) list"

type_synonym mstate = "nat \<times> caps"

definition line_end :: "char \<Rightarrow> bool" where
  "line_end c = (c = CHR 0x0A \<or> c = CHR 0x0D)"

definition one_char :: "(char \<Rightarrow> bool) \<Rightarrow> string \<Rightarrow> mstate \<Rightarrow> mstate list" where
  "one_char P inp st =
     (if fst st < length inp \<and> P (inp ! fst st) then [(Suc (fst st), snd st)] else [])"

definition forget :: "rx \<Rightarrow> mstate \<Rightarrow> mstate" where
  "forget r st = (fst st, filter (\<lambda>(i, s). i \<notin> fst ` set (grps r)) (snd st))"

definition advance :: "mstate \<Rightarrow> mstate list \<Rightarrow> mstate list" where
  "advance st rs = filter (\<lambda>st'. fst st < fst st') rs"

fun repeat :: "(mstate \<Rightarrow> mstate list) \<Rightarrow> nat \<Rightarrow> mstate \<Rightarrow> mstate list" where
  "repeat f 0 st = [st]"
| "repeat f (Suc n) st = concat (map (repeat f n) (advance st (f st))) @ [st]"

fun backtrack :: "rx \<Rightarrow> string \<Rightarrow> mstate \<Rightarrow> mstate list" where
  "backtrack (Chr c) inp st = one_char (\<lambda>x. x = c) inp st"
| "backtrack AnyChar inp st = one_char (\<lambda>x. \<not> line_end x) inp st"
| "backtrack WordChar inp st = one_char word_char inp st"
| "backtrack Bol inp st = (if fst st = 0 then [st] else [])"
| "backtrack Eol inp st = (if fst st = length inp then [st] else [])"
| "backtrack Empty inp st = [st]"
| "backtrack (Cat a b) inp st = concat (map (backtrack b inp) (backtrack a inp st))"
| "backtrack (Alt a b) inp st = backtrack a inp st @ backtrack b inp st"
| "backtrack (Grp i n r) inp st =
     map (\<lambda>st'. (fst st', (i, take (fst st' - fst st) (drop (fst st) inp)) # filter (\<lambda>(j, s). j \<noteq> i) (snd st')))
         (backtrack r inp st)"
| "backtrack (Star r) inp st = repeat (\<lambda>x. backtrack r inp (forget r x)) (length inp) st"
| "backtrack (Plus r) inp st =
     concat (map (repeat (\<lambda>x. backtrack r inp (forget r x)) (length inp)) (backtrack r inp (forget r st)))"
| "backtrack (Opt r) inp st = advance st (backtrack r inp (forget r st)) @ [st]"

text \<open>The first match, looked for from each start position in turn.\<close>

fun search :: "rx \<Rightarrow> string \<Rightarrow> nat \<Rightarrow> nat \<Rightarrow> (nat \<times> mstate) option" where
  "search r inp start 0 = None"
| "search r inp start (Suc fuel) =
     (case backtrack r inp (start, []) of
        st # _ \<Rightarrow> Some (start, st)
      | [] \<Rightarrow> search r inp (Suc start) fuel)"

text \<open>
  The match object: the matched text, then each capturing group by number,
  and \<^verbatim>\<open>groups\<close> with one property for each named group if there is one.
\<close>

definition result_of :: "rx \<Rightarrow> string \<Rightarrow> nat \<times> mstate \<Rightarrow> match_result" where
  "result_of r inp res =
     (case res of (start, (e, cs)) \<Rightarrow>
        \<lparr>captures = Some (take (e - start) (drop start inp)) # map (\<lambda>(i, n). map_of cs i) (grps r),
         groups = (if list_all (\<lambda>(i, n). n = None) (grps r) then None
                   else Some (concat (map (\<lambda>(i, n). case n of None \<Rightarrow> [] | Some nm \<Rightarrow> [(nm, map_of cs i)]) (grps r))))\<rparr>)"

definition js_match :: "string \<Rightarrow> string \<Rightarrow> match_result option option" where
  "js_match p inp =
     (case parse p of
        None \<Rightarrow> None
      | Some r \<Rightarrow> Some (map_option (result_of r inp) (search r inp 0 (Suc (length inp)))))"

text \<open>
  \<^verbatim>\<open>new RegExp(p)\<close> as the object of identity \<open>i\<close>. Its \<^verbatim>\<open>source\<close> is
  taken to be the text \<open>p\<close>; a host may write \<^verbatim>\<open>/\<close> as \<^verbatim>\<open>\/\<close> there,
  which the engine reads as the same character.
\<close>

definition RegExp :: "nat \<Rightarrow> string \<Rightarrow> regexp" where
  "RegExp i p = \<lparr>rid = i, source = p\<rparr>"

text \<open>
  \<^verbatim>\<open>url.match(k)\<close> of a host: what the reference engine answers for the
  patterns it reads, and for every other pattern what the rest of the host's
  engine answers, which is a parameter.
\<close>

definition host_match :: "engine \<Rightarrow> engine" where
  "host_match rest k u = (case js_match (source k) u of Some res \<Rightarrow> res | None \<Rightarrow> rest k u)"

section \<open>Notions of the specification\<close>

text \<open>When an entry of the registry matches a fragment.\<close>

fun key_matches :: "engine \<Rightarrow> string \<Rightarrow> route_def \<Rightarrow> bool" where
  "key_matches eng u (Str s) = (u = s)"
| "key_matches eng u (Re r) = (eng r u \<noteq> None)"

text \<open>The named captures of a matching entry, absent for a string key.\<close>

fun params_of :: "engine \<Rightarrow> string \<Rightarrow> route_def \<Rightarrow> params option" where
  "params_of eng u (Str s) = None"
| "params_of eng u (Re r) = (case eng r u of None \<Rightarrow> None | Some mr \<Rightarrow> Some (spread (groups mr)))"

text \<open>The text that an interpolated value contributes to a route.\<close>

fun pieceOf :: "val \<Rightarrow> string" where
  "pieceOf (VStr s) = escapeRegex s"
| "pieceOf (VRe r) = source r"

text \<open>Two sequences in alternating order, beginning with the first.\<close>

fun alternating :: "'a list \<Rightarrow> 'a list \<Rightarrow> 'a list" where
  "alternating [] vs = vs"
| "alternating (s # ss) [] = s # ss"
| "alternating (s # ss) (v # vs) = s # v # alternating ss vs"

text \<open>The four parts of the router that the registration methods set.\<close>

definition slots :: "world \<Rightarrow> (route_def \<times> handler) list \<times> handler option \<times> handler option \<times> string option" where
  "slots w = (handlers (rt w), fallbackHandler (rt w), afterEachHandler (rt w), startAt (rt w))"

text \<open>A router that was deactivated: its signal is aborted and no listener is attached.\<close>

definition dead :: "world \<Rightarrow> bool" where
  "dead w = (aborted (rt w) \<and> listeners w = 0)"

text \<open>The number of resolutions that a run has performed.\<close>

fun resolutions :: "event list \<Rightarrow> nat" where
  "resolutions [] = 0"
| "resolutions (Resolution r # t) = Suc (resolutions t)"
| "resolutions (Call h r # t) = resolutions t"

text \<open>
  What can happen to a router and its page, one after the other: a navigation
  signal arrives, the fragment is changed, a method of the router is called.
\<close>

datatype op = Popstate | SetHash string | On route_arg handler | Off route_arg
  | Fallback handler | AfterEach handler | Connect | Disconnect

fun step :: "engine \<Rightarrow> behaviour \<Rightarrow> op \<Rightarrow> world \<Rightarrow> world \<times> event list" where
  "step eng beh Popstate w = popstate eng beh w"
| "step eng beh (SetHash s) w = (set_hash s w, [])"
| "step eng beh (On a h) w = (w\<lparr>rt := on a h (rt w)\<rparr>, [])"
| "step eng beh (Off a) w = (w\<lparr>rt := off a (rt w)\<rparr>, [])"
| "step eng beh (Fallback h) w = (w\<lparr>rt := fallback h (rt w)\<rparr>, [])"
| "step eng beh (AfterEach h) w = (w\<lparr>rt := afterEach h (rt w)\<rparr>, [])"
| "step eng beh Connect w = (case connect eng beh w of (out, w', t) \<Rightarrow> (w', t))"
| "step eng beh Disconnect w = (disconnect w, [])"

fun run :: "engine \<Rightarrow> behaviour \<Rightarrow> op list \<Rightarrow> world \<Rightarrow> world \<times> (op \<times> event list) list" where
  "run eng beh [] w = (w, [])"
| "run eng beh (x # xs) w =
     (case step eng beh x w of
        (w1, t) \<Rightarrow> (case run eng beh xs w1 of (w2, l) \<Rightarrow> (w2, (x, t) # l)))"

text \<open>
  A page with a new router, nothing attached and nothing queued, on which
  \<^verbatim>\<open>location.hash\<close> reads \<open>h\<close>: the empty string, or \<^verbatim>\<open>#\<close> and a
  fragment.
\<close>

definition page :: "router \<Rightarrow> string \<Rightarrow> world" where
  "page r h = \<lparr>rt = r, fragment = (case h of [] \<Rightarrow> None | c # f \<Rightarrow> Some f), listeners = 0, pending = 0\<rparr>"

section \<open>Examples\<close>

text \<open>A behaviour in which every handler returns and touches nothing.\<close>

definition quiet :: behaviour where
  "quiet h r w = (Returns, w)"

text \<open>A behaviour in which one handler throws.\<close>

definition throwing :: "handler \<Rightarrow> behaviour" where
  "throwing bad h r w = (if h = bad then Throws else Returns, w)"

text \<open>A behaviour in which one handler registers a route, as \<^verbatim>\<open>router.on\<close> does.\<close>

definition registering :: "handler \<Rightarrow> behaviour" where
  "registering h0 h r w =
     (Returns, if h = h0 then w\<lparr>rt := on (One (Str ''#/new'')) 9 (rt w)\<rparr> else w)"

text \<open>\<^verbatim>\<open>/^#\/users\/(?<id>\w+)$/\<close>, which is also \<^verbatim>\<open>route`#/users/${param("id")}`\<close>\<close>

definition users_rx :: regexp where
  "users_rx = RegExp 1 (''^#/users/(?<id>'' @ [bslash] @ ''w+)$'')"


text \<open>
  \<^verbatim>\<open>new Router({ startAt: "#/home" }).on("#/home", h1).on(users_rx, h2)
  .on("#/users/7", h3).fallback(h4).afterEach(h5)\<close>
\<close>

definition site :: router where
  "site = afterEach 5 (fallback 4 (on (One (Str ''#/users/7'')) 3 (on (One (Re users_rx)) 2
            (on (One (Str ''#/home'')) 1 (Router (Some ''#/home''))))))"


text \<open>
  For a resolution in which no pattern is tried, and the rest of the engine
  is therefore not asked: an engine that knows no pattern.
\<close>

definition unasked :: engine where
  "unasked k u = None"

text \<open>\<^verbatim>\<open>new Router().on("#/home", h1)\<close>, without fallback and post-navigation handler.\<close>

definition bare :: router where
  "bare = on (One (Str ''#/home'')) 1 (Router None)"

section \<open>Properties of the reference engine on escaped text\<close>

text \<open>
  The class of \<^verbatim>\<open>escapeRegex\<close> is the set of syntax characters of the
  engine: it escapes each of them and nothing that the engine would not take
  back as the character itself.
\<close>

lemma special_syntax_char: "special c = syntax_char c"
  by (auto simp: special_def syntax_char_def)

lemma syntax_char_cases:
  "syntax_char c \<Longrightarrow> c \<noteq> CHR ''w''"
  "\<not> syntax_char c \<Longrightarrow> c \<noteq> bslash \<and> c \<noteq> CHR ''('' \<and> c \<noteq> CHR '')'' \<and> c \<noteq> CHR ''|'' \<and> c \<noteq> CHR ''*''
     \<and> c \<noteq> CHR ''+'' \<and> c \<noteq> CHR ''?'' \<and> c \<noteq> CHR ''^'' \<and> c \<noteq> CHR ''$'' \<and> c \<noteq> CHR ''.''"
  by (auto simp: syntax_char_def)

lemma tokenize_escaped:
  "tokenize (escapeRegex s @ rest) = map_option (\<lambda>ts. map TChr s @ ts) (tokenize rest)"
proof (induction s)
  case Nil
  show ?case by (simp add: option.map_ident)
next
  case (Cons c cs)
  show ?case
  proof (cases "syntax_char c")
    case True
    then show ?thesis using Cons syntax_char_cases(1)[OF True]
      by (simp add: option.map_comp comp_def special_syntax_char)
  next
    case False
    then show ?thesis using Cons syntax_char_cases(2)[OF False]
      by (simp add: option.map_comp comp_def special_syntax_char)
  qed
qed

lemma psteps_append:
  "psteps (a @ b) st = (case psteps a st of None \<Rightarrow> None | Some st' \<Rightarrow> psteps b st')"
  by (induction a arbitrary: st) (auto split: option.splits)

lemma psteps_chars:
  "psteps (map TChr s) (f # fs, n) =
     Some (f\<lparr>f_cur := f_cur f @ map Chr s, f_quant := (if s = [] then f_quant f else True)\<rparr> # fs, n)"
  by (induction s arbitrary: f) (auto simp: push_item_def)

lemma grps_chars: "grps (foldr Cat (map Chr s) r) = grps r"
  by (induction s) auto

lemma parse_literal:
  "parse (''^'' @ escapeRegex s @ ''$'') = Some (seq_rx (Bol # map Chr s @ [Eol]))"
proof -
  have t: "tokenize (''^'' @ escapeRegex s @ ''$'') = Some (TBol # map TChr s @ [TEol])"
    by (simp add: tokenize_escaped syntax_char_def)
  have g: "distinct (group_names (seq_rx (Bol # map Chr s @ [Eol])))"
    by (simp add: group_names_def seq_rx_def grps_chars)
  have "psteps (TBol # map TChr s @ [TEol]) ([frame0 Top], 0)
      = psteps (map TChr s @ [TEol]) ([push_item Bol False (frame0 Top)], 0)"
    by simp
  also have "\<dots> = Some ([\<lparr>f_kind = Top, f_alts = [], f_cur = Bol # map Chr s @ [Eol], f_quant = False\<rparr>], 0)"
    by (simp add: psteps_append psteps_chars push_item_def frame0_def)
  finally have ps: "psteps (TBol # map TChr s @ [TEol]) ([frame0 Top], 0)
      = Some ([\<lparr>f_kind = Top, f_alts = [], f_cur = Bol # map Chr s @ [Eol], f_quant = False\<rparr>], 0)" .
  show ?thesis
    using g
    by (simp only: parse_def t option.case ps prod.case list.case close_frame_def append_Nil alts_rx.simps frame.simps if_True)
qed

lemma backtrack_chars:
  "backtrack (foldr Cat (map Chr s) r) inp (pos, cs) =
     (if take (length s) (drop pos inp) = s
      then backtrack r inp (pos + length s, cs) else [])"
proof (induction s arbitrary: pos)
  case Nil
  show ?case by simp
next
  case (Cons c s)
  show ?case
  proof (cases "pos < length inp \<and> inp ! pos = c")
    case True
    then have d: "drop pos inp = c # drop (Suc pos) inp"
      by (metis Cons_nth_drop_Suc)
    show ?thesis using True Cons[of "Suc pos"] d
      by (simp add: one_char_def)
  next
    case False
    have "take (length (c # s)) (drop pos inp) \<noteq> c # s"
    proof (cases "drop pos inp")
      case Nil
      then show ?thesis by simp
    next
      case (Cons x xs)
      then have lt: "pos < length inp" by (cases "pos < length inp") auto
      then have "drop pos inp = inp ! pos # drop (Suc pos) inp"
        by (simp add: Cons_nth_drop_Suc)
      with Cons have "x = inp ! pos" by simp
      with False lt have "x \<noteq> c" by simp
      with Cons show ?thesis by simp
    qed
    then show ?thesis using False by (auto simp: one_char_def)
  qed
qed


lemma search_none:
  "(\<And>start. a \<le> start \<Longrightarrow> backtrack r inp (start, []) = []) \<Longrightarrow> search r inp a fuel = None"
  by (induction fuel arbitrary: a) auto

lemma js_match_literal:
  "js_match (''^'' @ escapeRegex s @ ''$'') inp =
     Some (if inp = s then Some \<lparr>captures = [Some s], groups = None\<rparr> else None)"
proof -
  let ?r = "seq_rx (Bol # map Chr s @ [Eol])"
  have bt: "backtrack ?r inp (start, []) = (if start = 0 \<and> inp = s then [(length s, [])] else [])" for start
  proof -
    have "take (length s) inp = s \<and> length s = length inp \<longleftrightarrow> inp = s"
      by auto
    then show ?thesis by (auto simp: seq_rx_def backtrack_chars)
  qed
  have g: "grps ?r = []" by (simp add: seq_rx_def grps_chars)
  have "search ?r inp (Suc 0) (length inp) = None"
    by (rule search_none) (simp add: bt del: backtrack.simps)
  then have sr: "search ?r inp 0 (Suc (length inp)) = (if inp = s then Some (0, (length s, [])) else None)"
    by (simp add: bt del: backtrack.simps)
  have "js_match (''^'' @ escapeRegex s @ ''$'') inp =
      Some (map_option (result_of ?r inp) (search ?r inp 0 (Suc (length inp))))"
    by (simp only: js_match_def parse_literal option.case)
  then show ?thesis
    by (simp add: sr result_of_def g del: search.simps backtrack.simps)
qed

section \<open>Properties of the route helper\<close>

lemma alternating_Nil2: "alternating xs [] = xs"
  by (cases xs) simp_all

lemma alternating_map: "alternating (map f xs) (map f ys) = map f (alternating xs ys)"
  by (induction xs ys rule: alternating.induct) simp_all

lemma escapeRegex_append: "escapeRegex (a @ b) = escapeRegex a @ escapeRegex b"
  by (induction a) simp_all

lemma escapeRegex_concat: "concat (map escapeRegex xs) = escapeRegex (concat xs)"
  by (induction xs) (simp_all add: escapeRegex_append)

lemma escapeRegex_chars:
  "escapeRegex s = concat (map (\<lambda>c. if special c then [bslash, c] else [c]) s)"
  by (induction s) simp_all

lemma startsWith_escapeRegex: "startsWith (escapeRegex s) ''#/'' = startsWith s ''#/''"
proof (cases s)
  case Nil
  then show ?thesis by (simp add: startsWith_def)
next
  case (Cons c cs)
  show ?thesis
  proof (cases cs)
    case Nil
    with Cons show ?thesis by (auto simp: startsWith_def special_def)
  next
    case (Cons d ds)
    with \<open>s = c # cs\<close> show ?thesis by (auto simp: startsWith_def special_def)
  qed
qed

lemma route_loop_drop:
  "length vals \<le> length segments \<Longrightarrow> route_loop segments vals i buf =
     buf @ alternating (map escapeRegex (drop i segments)) (map pieceOf (drop i vals))"
proof (induction segments vals i buf rule: route_loop.induct)
  case (1 segments vals i buf)
  show ?case
  proof (cases "i < length segments")
    case False
    with 1(2) show ?thesis by (subst route_loop.simps) simp
  next
    case True
    note lt = True
    have seg: "drop i segments = segments ! i # drop (Suc i) segments"
      using lt by (simp add: Cons_nth_drop_Suc)
    show ?thesis
    proof (cases "i < length vals")
      case True
      have vl: "drop i vals = vals ! i # drop (Suc i) vals"
        using True by (simp add: Cons_nth_drop_Suc)
      show ?thesis
      proof (cases "vals ! i")
        case (VStr s)
        have "route_loop segments vals i buf = route_loop segments vals (i + 1) (buf @ [escapeRegex (segments ! i)] @ [escapeRegex s])"
          using lt True VStr by (subst route_loop.simps) simp
        also have "\<dots> = (buf @ [escapeRegex (segments ! i)] @ [escapeRegex s]) @ alternating (map escapeRegex (drop (i+1) segments)) (map pieceOf (drop (i+1) vals))"
          using 1(1)[OF lt refl refl refl] lt True VStr 1(2) by simp
        finally show ?thesis using seg vl VStr by simp
      next
        case (VRe r)
        have "route_loop segments vals i buf = route_loop segments vals (i + 1) (buf @ [escapeRegex (segments ! i)] @ [source r])"
          using lt True VRe by (subst route_loop.simps) simp
        also have "\<dots> = (buf @ [escapeRegex (segments ! i)] @ [source r]) @ alternating (map escapeRegex (drop (i+1) segments)) (map pieceOf (drop (i+1) vals))"
          using 1(1)[OF lt refl refl refl] lt True VRe 1(2) by simp
        finally show ?thesis using seg vl VRe by simp
      qed
    next
      case False
      have "route_loop segments vals i buf = route_loop segments vals (i + 1) (buf @ [escapeRegex (segments ! i)])"
        using lt False by (subst route_loop.simps) simp
      also have "\<dots> = (buf @ [escapeRegex (segments ! i)]) @ alternating (map escapeRegex (drop (i+1) segments)) (map pieceOf (drop (i+1) vals))"
        using 1(1)[OF lt refl refl refl] lt False 1(2) by simp
      finally show ?thesis using seg False by (simp add: alternating_Nil2)
    qed
  qed
qed

lemma route_buf:
  "length vals \<le> length segments \<Longrightarrow>
   route_loop segments vals 0 [] = alternating (map escapeRegex segments) (map pieceOf vals)"
  by (simp add: route_loop_drop)

lemma route_loop_first:
  "route_loop segments vals i buf = buf @ route_loop segments vals i []"
proof (induction "length segments - i" arbitrary: i buf)
  case 0
  then have "\<not> i < length segments" by simp
  then show ?case by (simp add: route_loop.simps[of segments vals i])
next
  case (Suc n)
  then have lt: "i < length segments" by simp
  let ?p = "(case (if i < length vals then Some (vals ! i) else None) of
                Some (VStr s) \<Rightarrow> [escapeRegex (segments ! i), escapeRegex s]
              | Some (VRe r) \<Rightarrow> [escapeRegex (segments ! i), source r]
              | None \<Rightarrow> [escapeRegex (segments ! i)])"
  have a: "route_loop segments vals i b = route_loop segments vals (i + 1) (b @ ?p)" for b
    using lt by (subst route_loop.simps) (simp split: option.splits val.splits)
  have n: "n = length segments - (i + 1)" using Suc(2) by simp
  have ih: "route_loop segments vals (i + 1) b = b @ route_loop segments vals (i + 1) []" for b
    by (rule Suc(1)[OF n])
  show ?case
    using a[of buf] a[of "[]"] ih[of "buf @ ?p"] ih[of "?p"] by simp
qed

lemma route_loop_head:
  "segments \<noteq> [] \<Longrightarrow> \<exists>tl. route_loop segments vals 0 [] = escapeRegex (hd segments) # tl"
proof -
  assume ne: "segments \<noteq> []"
  let ?p = "(case (if 0 < length vals then Some (vals ! 0) else None) of
                Some (VStr s) \<Rightarrow> [escapeRegex (segments ! 0), escapeRegex s]
              | Some (VRe r) \<Rightarrow> [escapeRegex (segments ! 0), source r]
              | None \<Rightarrow> [escapeRegex (segments ! 0)])"
  have "route_loop segments vals 0 [] = route_loop segments vals (0 + 1) ?p"
    using ne by (subst route_loop.simps) (simp split: option.splits val.splits)
  also have "\<dots> = ?p @ route_loop segments vals (0 + 1) []"
    by (rule route_loop_first)
  finally show ?thesis using ne
    by (auto simp: hd_conv_nth split: option.splits val.splits if_splits)
qed

lemma route_loop_empty: "route_loop [] vals 0 [] = []"
  by (subst route_loop.simps) simp

text \<open>
  When \<^verbatim>\<open>route\<close> throws: the test looks at \<^verbatim>\<open>buf[0]\<close>, the first
  literal segment, and escaping does not change whether it begins with
  \<^verbatim>\<open>#/\<close>.
\<close>

lemma route_cases:
  "route segments vals =
     (if segments = [] then Inl TypeError
      else if startsWith (hd segments) ''#/''
           then Inr (''^'' @ concat (route_loop segments vals 0 []) @ ''$'')
           else Inl (InvalidRoute (message (concat (route_loop segments vals 0 [])))))"
proof (cases "segments = []")
  case True
  then show ?thesis by (simp add: route_def route_loop_empty)
next
  case False
  from route_loop_head[OF False, of vals] obtain tl where
    h: "route_loop segments vals 0 [] = escapeRegex (hd segments) # tl" by blast
  show ?thesis using False
    by (simp add: route_def h startsWith_escapeRegex)
qed

text \<open>
  C3. The claim: \<^verbatim>\<open>route\<close> throws its error if and only if the assembled
  text does not begin with \<^verbatim>\<open>#/\<close>. The code tests the first literal segment
  only. For the template \<^verbatim>\<open>route`${"#/foo"}/bar`\<close> the segments are
  \<^verbatim>\<open>""\<close> and \<^verbatim>\<open>"/bar"\<close>, the assembled text is \<^verbatim>\<open>#/foo/bar\<close>, which
  begins with \<^verbatim>\<open>#/\<close>, and \<^verbatim>\<open>route\<close> throws, with a message that names
  that very text.
\<close>

theorem route_rejects_prefix_in_value:
  "route ['''', ''/bar''] [VStr ''#/foo''] = Inl (InvalidRoute (message ''#/foo/bar''))
   \<and> startsWith ''#/foo/bar'' ''#/''"
  by code_simp

text \<open>
  The pattern that \<^verbatim>\<open>route\<close> assembles. For a call with no more values
  than segments (a template literal gives one segment more than values) on
  which \<^verbatim>\<open>route\<close> does not throw, it is \<^verbatim>\<open>^\<close>, then the segments and the
  values in alternating order, then \<^verbatim>\<open>$\<close>, where a segment and a string
  value are escaped and a RegExp value contributes its source as it is.
\<close>

lemma route_source:
  assumes "length vals \<le> length segments" and "route segments vals = Inr p"
  shows "p = ''^'' @ concat (alternating (map escapeRegex segments) (map pieceOf vals)) @ ''$''"
proof -
  from assms(2) have "p = ''^'' @ concat (route_loop segments vals 0 []) @ ''$''"
    by (auto simp: route_cases split: if_splits)
  then show ?thesis by (simp add: route_buf[OF assms(1)])
qed

text \<open>
  Escaped text matches verbatim: a route made of segments and string values
  matches their concatenation, as a whole, and no other text.
\<close>

lemma route_literal_match:
  assumes "length strs \<le> length segments" and "route segments (map VStr strs) = Inr p"
  shows "js_match p inp =
           Some (if inp = concat (alternating segments strs)
                 then Some \<lparr>captures = [Some inp], groups = None\<rparr> else None)"
proof -
  have l: "length (map VStr strs) \<le> length segments" using assms(1) by simp
  have m: "map pieceOf (map VStr strs) = map escapeRegex strs"
    by simp
  have "p = ''^'' @ concat (alternating (map escapeRegex segments) (map escapeRegex strs)) @ ''$''"
    using route_source[OF l assms(2)] unfolding m .
  then have "p = ''^'' @ escapeRegex (concat (alternating segments strs)) @ ''$''"
    by (simp add: alternating_map escapeRegex_concat)
  with js_match_literal[of "concat (alternating segments strs)" inp] show ?thesis
    by auto
qed

lemma route_literal_example:
  "route [''#/foo/'', ''/baz''] [VStr ''b*r''] = Inr (''^#/foo/b'' @ [bslash] @ ''*r/baz$'')
   \<and> js_match (''^#/foo/b'' @ [bslash] @ ''*r/baz$'') ''#/foo/b*r/baz''
       = Some (Some \<lparr>captures = [Some ''#/foo/b*r/baz''], groups = None\<rparr>)
   \<and> js_match (''^#/foo/b'' @ [bslash] @ ''*r/baz$'') ''#/foo/bar/baz'' = Some None"
  by code_simp

text \<open>
  A pattern whose top level is one sequence from \<^verbatim>\<open>^\<close> to \<^verbatim>\<open>$\<close> matches
  whole texts only.
\<close>

lemma backtrack_to_end:
  "st' \<in> set (backtrack (foldr Cat (xs @ [Eol]) Empty) inp st) \<Longrightarrow> fst st' = length inp"
proof (induction xs arbitrary: st)
  case Nil
  then show ?case by (auto split: if_splits)
next
  case (Cons x xs)
  then show ?case by auto
qed

lemma search_some:
  "search r inp a fuel = Some (start, st) \<Longrightarrow> \<exists>more. backtrack r inp (start, []) = st # more"
  by (induction fuel arbitrary: a) (auto split: list.splits)

lemma anchored_match:
  assumes "parse p = Some (seq_rx (Bol # xs @ [Eol]))" and "js_match p inp = Some (Some mr)"
  shows "hd (captures mr) = Some inp"
proof -
  let ?r = "seq_rx (Bol # xs @ [Eol])"
  from assms obtain start st where sr: "search ?r inp 0 (Suc (length inp)) = Some (start, st)"
    and mr: "mr = result_of ?r inp (start, st)"
    by (auto simp: js_match_def)
  from search_some[OF sr] obtain more where b: "backtrack ?r inp (start, []) = st # more"
    by blast
  have r: "?r = Cat Bol (foldr Cat (xs @ [Eol]) Empty)"
    by (simp add: seq_rx_def)
  from b have s0: "start = 0"
    unfolding r by (auto split: if_splits)
  from b have "st \<in> set (backtrack (foldr Cat (xs @ [Eol]) Empty) inp (0, []))"
    unfolding r s0 by (simp del: foldr_append)
  then have e: "fst st = length inp"
    by (rule backtrack_to_end)
  obtain e' cs where st: "st = (e', cs)" by (cases st)
  show ?thesis
    using e by (simp add: mr st s0 result_of_def)
qed

text \<open>
  So it is for \<^verbatim>\<open>route`#/users/${param("id")}`\<close>: the text before and after
  a match is not passed over.
\<close>

lemma route_param_example:
  "route [''#/users/'', []] [VRe (RegExp 0 (param ''id''))] = Inr (''^#/users/(?<id>'' @ [bslash] @ ''w+)$'')
   \<and> js_match (''^#/users/(?<id>'' @ [bslash] @ ''w+)$'') ''#/users/42''
       = Some (Some \<lparr>captures = [Some ''#/users/42'', Some ''42''], groups = Some [(''id'', Some ''42'')]\<rparr>)
   \<and> js_match (''^#/users/(?<id>'' @ [bslash] @ ''w+)$'') ''#/users/42/edit'' = Some None
   \<and> js_match (''^#/users/(?<id>'' @ [bslash] @ ''w+)$'') ''x#/users/42'' = Some None"
  by code_simp

text \<open>
  C4. The claim: the compiled pattern is the segments and the values in
  alternating order, segments and string values escaped and the sources of
  RegExp values as they are, anchored at both ends so that only a match of
  the whole text succeeds. The code puts \<^verbatim>\<open>^\<close> before and \<^verbatim>\<open>$\<close> after
  the assembled text and does not group it. For
  \<^verbatim>\<open>route`#/${/home|about/}`\<close> the pattern is \<^verbatim>\<open>^#/home|about$\<close>, in
  which each anchor belongs to one alternative only: it matches the first six
  characters of \<^verbatim>\<open>#/homepage\<close>, and the last five of \<^verbatim>\<open>x/about\<close>.
\<close>

theorem route_alternation_partial_match:
  "route [''#/'', []] [VRe (RegExp 0 ''home|about'')] = Inr ''^#/home|about$''
   \<and> js_match ''^#/home|about$'' ''#/homepage''
       = Some (Some \<lparr>captures = [Some ''#/home''], groups = None\<rparr>)
   \<and> js_match ''^#/home|about$'' ''x/about''
       = Some (Some \<lparr>captures = [Some ''about''], groups = None\<rparr>)"
  by code_simp

section \<open>Properties of resolution\<close>

text \<open>The loop passes over entries that do not match and stops at one that does.\<close>

lemma scan_skip:
  "\<forall>e \<in> set pre. \<not> key_matches eng u (fst e) \<Longrightarrow> lv_handler vs = None \<Longrightarrow>
   scan eng u (pre @ rest) vs = scan eng u rest vs"
proof (induction pre)
  case Nil
  then show ?case by simp
next
  case (Cons e pre)
  obtain k v where e: "e = (k, v)" by (cases e)
  from Cons.prems(1) e have nk: "\<not> key_matches eng u k" by simp
  from Cons.prems(1) have rest: "\<forall>e \<in> set pre. \<not> key_matches eng u (fst e)" by simp
  show ?case
  proof (cases k)
    case (Str s)
    with nk Cons.prems(2) Cons.IH[OF rest Cons.prems(2)] e show ?thesis by simp
  next
    case (Re r)
    with nk Cons.prems(2) Cons.IH[OF rest Cons.prems(2)] e show ?thesis by simp
  qed
qed

lemma scan_hit:
  "key_matches eng u k \<Longrightarrow> lv_handler vs = None \<Longrightarrow> lv_params vs = None \<Longrightarrow>
   scan eng u ((k, v) # post) vs =
     vs\<lparr>lv_route2 := Some k, lv_handler := Some v, lv_params := params_of eng u k\<rparr>"
  by (cases k) (auto split: option.splits)

lemma scan_miss:
  "\<forall>e \<in> set hs. \<not> key_matches eng u (fst e) \<Longrightarrow> scan eng u hs vars0 = vars0"
  using scan_skip[of hs eng u vars0 "[]"] by (simp add: vars0_def)

lemma scan_first:
  assumes "\<forall>e \<in> set pre. \<not> key_matches eng u (fst e)" and "key_matches eng u k"
  shows "scan eng u (pre @ (k, v) # post) vars0 =
     \<lparr>lv_route2 = Some k, lv_handler = Some v, lv_params = params_of eng u k\<rparr>"
proof -
  have h0: "lv_handler vars0 = None" and p0: "lv_params vars0 = None"
    by (simp_all add: vars0_def)
  have "scan eng u (pre @ (k, v) # post) vars0 = scan eng u ((k, v) # post) vars0"
    using assms(1) h0 by (rule scan_skip)
  also have "\<dots> = vars0\<lparr>lv_route2 := Some k, lv_handler := Some v, lv_params := params_of eng u k\<rparr>"
    using assms(2) h0 p0 by (rule scan_hit)
  finally show ?thesis by (simp add: vars0_def)
qed

lemma resolved_of_hit:
  "resolved_of u \<lparr>lv_route2 = Some k, lv_handler = Some v, lv_params = ps\<rparr>
     = \<lparr>r_url = u, r_params = spread ps, r_route = Some k\<rparr>"
  by (cases ps) (simp_all add: resolved_of_def)

lemma resolved_of_miss:
  "resolved_of u vars0 = \<lparr>r_url = u, r_params = [], r_route = None\<rparr>"
  by (simp add: resolved_of_def vars0_def)

text \<open>
  \<^verbatim>\<open>#exec\<close> written out: which calls are made, in which order and with
  which argument, and what is returned when a call throws.
\<close>

lemma exec_unfold:
  "exec eng beh u w =
     (let vs = scan eng u (handlers (rt w)) vars0; res = resolved_of u vs in
      case nullish (lv_handler vs) (fallbackHandler (rt w)) of
        None \<Rightarrow>
          (case afterEachHandler (rt w) of
             None \<Rightarrow> (Returns, w, [Resolution res])
           | Some a \<Rightarrow> (case beh a res w of (out, w2) \<Rightarrow> (out, w2, [Resolution res, Call a res])))
      | Some h \<Rightarrow>
          (case beh h res w of
             (Throws, w1) \<Rightarrow> (Throws, w1, [Resolution res, Call h res])
           | (Returns, w1) \<Rightarrow>
               (case afterEachHandler (rt w1) of
                  None \<Rightarrow> (Returns, w1, [Resolution res, Call h res])
                | Some a \<Rightarrow>
                    (case beh a res w1 of (out, w2) \<Rightarrow> (out, w2, [Resolution res, Call h res, Call a res])))))"
  by (simp add: exec_def call_opt_def Let_def split: option.splits prod.splits outcome.splits)

lemma exec_hit:
  assumes "handlers (rt w) = pre @ (k, v) # post"
      and "\<forall>e \<in> set pre. \<not> key_matches eng u (fst e)"
      and "key_matches eng u k"
      and "res = \<lparr>r_url = u, r_params = spread (params_of eng u k), r_route = Some k\<rparr>"
  shows "exec eng beh u w =
          (case beh v res w of
             (Throws, w1) \<Rightarrow> (Throws, w1, [Resolution res, Call v res])
           | (Returns, w1) \<Rightarrow>
               (case afterEachHandler (rt w1) of
                  None \<Rightarrow> (Returns, w1, [Resolution res, Call v res])
                | Some a \<Rightarrow>
                    (case beh a res w1 of (out, w2) \<Rightarrow> (out, w2, [Resolution res, Call v res, Call a res]))))"
proof -
  have s: "scan eng u (handlers (rt w)) vars0 = \<lparr>lv_route2 = Some k, lv_handler = Some v, lv_params = params_of eng u k\<rparr>"
    using assms(1-3) by (simp add: scan_first)
  show ?thesis
    unfolding exec_unfold s Let_def resolved_of_hit assms(4) by simp
qed

lemma exec_miss:
  assumes "\<forall>e \<in> set (handlers (rt w)). \<not> key_matches eng u (fst e)"
      and "res = \<lparr>r_url = u, r_params = [], r_route = None\<rparr>"
  shows "exec eng beh u w =
     (case fallbackHandler (rt w) of
        None \<Rightarrow>
          (case afterEachHandler (rt w) of
             None \<Rightarrow> (Returns, w, [Resolution res])
           | Some a \<Rightarrow> (case beh a res w of (out, w2) \<Rightarrow> (out, w2, [Resolution res, Call a res])))
      | Some f \<Rightarrow>
          (case beh f res w of
             (Throws, w1) \<Rightarrow> (Throws, w1, [Resolution res, Call f res])
           | (Returns, w1) \<Rightarrow>
               (case afterEachHandler (rt w1) of
                  None \<Rightarrow> (Returns, w1, [Resolution res, Call f res])
                | Some a \<Rightarrow>
                    (case beh a res w1 of (out, w2) \<Rightarrow> (out, w2, [Resolution res, Call f res, Call a res])))))"
proof -
  have s: "scan eng u (handlers (rt w)) vars0 = vars0"
    using assms(1) by (rule scan_miss)
  have n: "nullish (lv_handler vars0) (fallbackHandler (rt w)) = fallbackHandler (rt w)"
    by (simp add: vars0_def)
  show ?thesis
    unfolding exec_unfold s Let_def resolved_of_miss n assms(2) by simp
qed

lemma resolutions_exec: "resolutions (snd (snd (exec eng beh u w))) = 1"
  by (simp add: exec_unfold Let_def split: option.splits prod.splits outcome.splits)

lemma exec_trace: "\<exists>out w' t. exec eng beh u w = (out, w', Resolution (resolved_of u (scan eng u (handlers (rt w)) vars0)) # t)"
  by (auto simp: exec_unfold Let_def split: option.splits prod.splits outcome.splits)

lemma r_url_resolved_of: "r_url (resolved_of u vs) = u"
  by (simp add: resolved_of_def)

lemma exec_throws:
  assumes "exec eng beh u w = (Throws, w', t)"
  shows "\<exists>h r w0. t \<noteq> [] \<and> last t = Call h r \<and> beh h r w0 = (Throws, w')"
  using assms
  by (auto simp: exec_unfold Let_def split: option.splits prod.splits outcome.splits)

text \<open>
  C1. Resolution scans the registry in insertion order and stops at the first
  entry that matches, where a string key matches when the fragment equals it
  and a RegExp key when \<^verbatim>\<open>url.match\<close> answers a match. If no entry before
  \<open>(k, v)\<close> matches and \<open>k\<close> does, the loop ends with \<open>k\<close> as the route and
  \<open>v\<close> as the handler, whatever entries follow (the result is that of the
  registry cut after \<open>(k, v)\<close>); the first call of the resolution is \<open>v\<close>, and
  the only call that can follow is that of the post-navigation handler.
\<close>

theorem first_match_wins:
  assumes "handlers (rt w) = pre @ (k, v) # post"
      and "\<forall>e \<in> set pre. \<not> key_matches eng u (fst e)"
      and "key_matches eng u k"
  shows "scan eng u (handlers (rt w)) vars0 = scan eng u (pre @ [(k, v)]) vars0
       \<and> lv_route2 (scan eng u (handlers (rt w)) vars0) = Some k
       \<and> lv_handler (scan eng u (handlers (rt w)) vars0) = Some v
       \<and> (\<exists>res out w' t.
             exec eng beh u w = (out, w', Resolution res # Call v res # t)
             \<and> r_route res = Some k
             \<and> (t = [] \<or> (\<exists>a w1. beh v res w = (Returns, w1) \<and> afterEachHandler (rt w1) = Some a
                                \<and> t = [Call a res])))"
proof (intro conjI)
  have s: "scan eng u (handlers (rt w)) vars0 =
      \<lparr>lv_route2 = Some k, lv_handler = Some v, lv_params = params_of eng u k\<rparr>"
    using assms by (simp add: scan_first)
  show "scan eng u (handlers (rt w)) vars0 = scan eng u (pre @ [(k, v)]) vars0"
    using s scan_first[OF assms(2,3), of v "[]"] by simp
  show "lv_route2 (scan eng u (handlers (rt w)) vars0) = Some k"
    by (simp add: s)
  show "lv_handler (scan eng u (handlers (rt w)) vars0) = Some v"
    by (simp add: s)
  let ?res = "\<lparr>r_url = u, r_params = spread (params_of eng u k), r_route = Some k\<rparr>"
  note e = exec_hit[OF assms refl, where beh = beh]
  show "\<exists>res out w' t.
          exec eng beh u w = (out, w', Resolution res # Call v res # t)
          \<and> r_route res = Some k
          \<and> (t = [] \<or> (\<exists>a w1. beh v res w = (Returns, w1) \<and> afterEachHandler (rt w1) = Some a
                             \<and> t = [Call a res]))"
  proof (cases "beh v ?res w")
    case (Pair o1 w1)
    show ?thesis
    proof (cases o1)
      case Throws
      with Pair e have "exec eng beh u w = (Throws, w1, Resolution ?res # Call v ?res # [])" by simp
      then show ?thesis by force
    next
      case Returns
      note r = Returns
      show ?thesis
      proof (cases "afterEachHandler (rt w1)")
        case None
        with Pair r e have "exec eng beh u w = (Returns, w1, Resolution ?res # Call v ?res # [])" by simp
        then show ?thesis by force
      next
        case (Some a)
        obtain o2 w2 where b: "beh a ?res w1 = (o2, w2)" by (cases "beh a ?res w1")
        with Pair r e Some have "exec eng beh u w = (o2, w2, Resolution ?res # Call v ?res # [Call a ?res])" by simp
        moreover have "beh v ?res w = (Returns, w1)" using Pair r by simp
        ultimately show ?thesis using Some
          by (intro exI[of _ ?res] exI[of _ o2] exI[of _ w2] exI[of _ "[Call a ?res]"]) auto
      qed
    qed
  qed
qed

text \<open>
  A witness for C1: the fragment \<^verbatim>\<open>#/users/7\<close> is matched by the pattern
  registered second and by the string registered third; the handler of the
  pattern is taken.
\<close>

theorem first_match_wins_witness:
  "\<forall>rest.
     handlers (rt (page site ''#/users/7'')) = [(Str ''#/home'', 1)] @ (Re users_rx, 2) # [(Str ''#/users/7'', 3)]
   \<and> \<not> key_matches (host_match rest) ''#/users/7'' (Str ''#/home'')
   \<and> key_matches (host_match rest) ''#/users/7'' (Re users_rx)
   \<and> key_matches (host_match rest) ''#/users/7'' (Str ''#/users/7'')
   \<and> lv_route2 (scan (host_match rest) ''#/users/7'' (handlers (rt (page site ''#/users/7''))) vars0) = Some (Re users_rx)
   \<and> lv_handler (scan (host_match rest) ''#/users/7'' (handlers (rt (page site ''#/users/7''))) vars0) = Some 2"
  apply (intro allI)
  subgoal for rest
  proof -
    have h1: "handlers (rt (page site ''#/users/7'')) = [(Str ''#/home'', 1)] @ (Re users_rx, 2) # [(Str ''#/users/7'', 3)]"
      by code_simp
    have h2: "\<forall>e \<in> set [(Str ''#/home'', 1::nat)]. \<not> key_matches (host_match rest) ''#/users/7'' (fst e)"
      by code_simp
    have h3: "key_matches (host_match rest) ''#/users/7'' (Re users_rx)"
      by code_simp
    have h4: "key_matches (host_match rest) ''#/users/7'' (Str ''#/users/7'')"
      by simp
    have h5: "\<not> key_matches (host_match rest) ''#/users/7'' (Str ''#/home'')"
      by simp
    from first_match_wins[OF h1 h2 h3, of quiet] h1 h3 h4 h5 show ?thesis
      by blast
  qed
  done








text \<open>
  C5, as amended. Let the first call of a resolution be that of the route
  handler or, without a match, of the fallback, if there is one. If it returns
  (or there is none), the post-navigation handler that is set at that moment
  is called exactly once, last, with the same \<^verbatim>\<open>resolved\<close> value, whether
  or not a route matched; if none is set, nothing more is called. If the first
  call throws, the resolution ends there and the post-navigation handler is
  not called.
\<close>

theorem afterEach_once:
  assumes "res = resolved_of u (scan eng u (handlers (rt w)) vars0)"
      and "first = nullish (lv_handler (scan eng u (handlers (rt w)) vars0)) (fallbackHandler (rt w))"
  shows "(call_opt beh first res w = (Returns, w1, t1) \<longrightarrow>
            (\<forall>a. afterEachHandler (rt w1) = Some a \<longrightarrow>
               (\<exists>out w2. beh a res w1 = (out, w2)
                         \<and> exec eng beh u w = (out, w2, Resolution res # t1 @ [Call a res])))
            \<and> (afterEachHandler (rt w1) = None \<longrightarrow> exec eng beh u w = (Returns, w1, Resolution res # t1))
            \<and> (t1 = [] \<or> (\<exists>h. t1 = [Call h res])))
       \<and> (call_opt beh first res w = (Throws, w1, t1) \<longrightarrow>
            exec eng beh u w = (Throws, w1, Resolution res # t1) \<and> (\<exists>h. t1 = [Call h res]))"
proof (intro conjI allI impI)
  assume c: "call_opt beh first res w = (Returns, w1, t1)"
  then have e: "exec eng beh u w =
      (case call_opt beh (afterEachHandler (rt w1)) res w1 of
         (out, w2, t2) \<Rightarrow> (out, w2, Resolution res # t1 @ t2))"
    using assms by (simp add: exec_def Let_def)
  show "\<exists>out w2. beh a res w1 = (out, w2) \<and> exec eng beh u w = (out, w2, Resolution res # t1 @ [Call a res])"
    if "afterEachHandler (rt w1) = Some a" for a
    using that e by (cases "beh a res w1") (simp add: call_opt_def)
  show "exec eng beh u w = (Returns, w1, Resolution res # t1)"
    if "afterEachHandler (rt w1) = None"
    using that e by (simp add: call_opt_def)
  show "t1 = [] \<or> (\<exists>h. t1 = [Call h res])"
    using c by (auto simp: call_opt_def split: option.splits prod.splits)
next
  assume c: "call_opt beh first res w = (Throws, w1, t1)"
  then show "exec eng beh u w = (Throws, w1, Resolution res # t1)"
    using assms by (simp add: exec_def Let_def)
  show "\<exists>h. t1 = [Call h res]"
    using c by (auto simp: call_opt_def split: option.splits prod.splits)
qed

text \<open>
  A witness for C5: a resolution with a match, and one without match and
  without fallback.
\<close>

theorem afterEach_once_witness:
  "\<forall>rest.
     call_opt quiet (Some 1) \<lparr>r_url = ''#/home'', r_params = [], r_route = Some (Str ''#/home'')\<rparr> (page site ''#/home'')
     = (Returns, page site ''#/home'', [Call 1 \<lparr>r_url = ''#/home'', r_params = [], r_route = Some (Str ''#/home'')\<rparr>])
   \<and> afterEachHandler (rt (page site ''#/home'')) = Some 5
   \<and> exec (host_match rest) quiet ''#/home'' (page site ''#/home'')
     = (Returns, page site ''#/home'',
        [Resolution \<lparr>r_url = ''#/home'', r_params = [], r_route = Some (Str ''#/home'')\<rparr>,
         Call 1 \<lparr>r_url = ''#/home'', r_params = [], r_route = Some (Str ''#/home'')\<rparr>,
         Call 5 \<lparr>r_url = ''#/home'', r_params = [], r_route = Some (Str ''#/home'')\<rparr>])
   \<and> call_opt quiet None \<lparr>r_url = ''#/x'', r_params = [], r_route = None\<rparr> (page (afterEach 5 bare) ''#/x'')
     = (Returns, page (afterEach 5 bare) ''#/x'', [])
   \<and> exec (host_match rest) quiet ''#/x'' (page (afterEach 5 bare) ''#/x'')
     = (Returns, page (afterEach 5 bare) ''#/x'',
        [Resolution \<lparr>r_url = ''#/x'', r_params = [], r_route = None\<rparr>,
         Call 5 \<lparr>r_url = ''#/x'', r_params = [], r_route = None\<rparr>])"
  apply (intro allI)
  subgoal for rest
  proof -
    let ?R = "\<lparr>r_url = ''#/home'', r_params = [], r_route = Some (Str ''#/home'')\<rparr>"
    let ?W = "page site ''#/home''"
    have r: "?R = resolved_of ''#/home'' (scan (host_match rest) ''#/home'' (handlers (rt ?W)) vars0)"
      by code_simp
    have f: "Some 1 = nullish (lv_handler (scan (host_match rest) ''#/home'' (handlers (rt ?W)) vars0)) (fallbackHandler (rt ?W))"
      by code_simp
    have c: "call_opt quiet (Some 1) ?R ?W = (Returns, ?W, [Call 1 ?R])"
      by (simp add: call_opt_def quiet_def)
    have a: "afterEachHandler (rt ?W) = Some 5"
      by code_simp
    have q: "quiet 5 ?R ?W = (Returns, ?W)"
      by (simp add: quiet_def)
    let ?R2 = "\<lparr>r_url = ''#/x'', r_params = [], r_route = None\<rparr>"
    let ?W2 = "page (afterEach 5 bare) ''#/x''"
    have r2: "?R2 = resolved_of ''#/x'' (scan (host_match rest) ''#/x'' (handlers (rt ?W2)) vars0)"
      by code_simp
    have f2: "None = nullish (lv_handler (scan (host_match rest) ''#/x'' (handlers (rt ?W2)) vars0)) (fallbackHandler (rt ?W2))"
      by code_simp
    have c2: "call_opt quiet None ?R2 ?W2 = (Returns, ?W2, [])"
      by (simp add: call_opt_def)
    have a2: "afterEachHandler (rt ?W2) = Some 5"
      by code_simp
    have q2: "quiet 5 ?R2 ?W2 = (Returns, ?W2)"
      by (simp add: quiet_def)
    from afterEach_once[OF r f, THEN conjunct1, rule_format, OF c, THEN conjunct1, rule_format, OF a] q
    have e1: "exec (host_match rest) quiet ''#/home'' ?W = (Returns, ?W, [Resolution ?R, Call 1 ?R, Call 5 ?R])"
      by simp
    from afterEach_once[OF r2 f2, THEN conjunct1, rule_format, OF c2, THEN conjunct1, rule_format, OF a2] q2
    have e2: "exec (host_match rest) quiet ''#/x'' ?W2 = (Returns, ?W2, [Resolution ?R2, Call 5 ?R2])"
      by simp
    from c a e1 c2 e2 show ?thesis by blast
  qed
  done

text \<open>
  C5 as stated fails for a resolution whose route handler throws: the
  post-navigation handler \<open>5\<close> is set and is not called. The route that
  matches is a string, the first entry of the registry, so that no pattern is
  tried.
\<close>

theorem afterEach_skipped_counterexample:
  "afterEachHandler (rt (page site ''#/home'')) = Some 5
   \<and> exec (host_match unasked) (throwing 1) ''#/home'' (page site ''#/home'')
     = (Throws, page site ''#/home'',
        [Resolution \<lparr>r_url = ''#/home'', r_params = [], r_route = Some (Str ''#/home'')\<rparr>,
         Call 1 \<lparr>r_url = ''#/home'', r_params = [], r_route = Some (Str ''#/home'')\<rparr>])"
  by code_simp

text \<open>
  C6. If an entry matches, the first call is that entry's handler and the
  fallback is not consulted; if none matches, the first call is the fallback,
  if set, with a \<^verbatim>\<open>resolved\<close> value whose route is absent and whose
  \<^verbatim>\<open>params\<close> is empty; a handler that is not set is not called, and without
  match, fallback and post-navigation handler (in particular with an empty
  registry) the resolution returns with no call at all. A resolution throws
  only when the handler it called last has thrown.
\<close>

theorem handler_dispatch:
  "(handlers (rt w) = pre @ (k, v) # post \<and> (\<forall>e \<in> set pre. \<not> key_matches eng u (fst e))
      \<and> key_matches eng u k \<and> res1 = \<lparr>r_url = u, r_params = spread (params_of eng u k), r_route = Some k\<rparr> \<longrightarrow>
        exec eng beh u w =
          (case beh v res1 w of
             (Throws, w1) \<Rightarrow> (Throws, w1, [Resolution res1, Call v res1])
           | (Returns, w1) \<Rightarrow>
               (case afterEachHandler (rt w1) of
                  None \<Rightarrow> (Returns, w1, [Resolution res1, Call v res1])
                | Some a \<Rightarrow>
                    (case beh a res1 w1 of
                       (out, w2) \<Rightarrow> (out, w2, [Resolution res1, Call v res1, Call a res1])))))
   \<and> ((\<forall>e \<in> set (handlers (rt w)). \<not> key_matches eng u (fst e))
        \<and> res0 = \<lparr>r_url = u, r_params = [], r_route = None\<rparr> \<longrightarrow>
        (\<forall>f. fallbackHandler (rt w) = Some f \<longrightarrow>
           exec eng beh u w =
             (case beh f res0 w of
                (Throws, w1) \<Rightarrow> (Throws, w1, [Resolution res0, Call f res0])
              | (Returns, w1) \<Rightarrow>
                  (case afterEachHandler (rt w1) of
                     None \<Rightarrow> (Returns, w1, [Resolution res0, Call f res0])
                   | Some a \<Rightarrow>
                       (case beh a res0 w1 of
                          (out, w2) \<Rightarrow> (out, w2, [Resolution res0, Call f res0, Call a res0])))))
        \<and> (fallbackHandler (rt w) = None \<longrightarrow>
             (\<forall>a. afterEachHandler (rt w) = Some a \<longrightarrow>
                exec eng beh u w =
                  (case beh a res0 w of (out, w2) \<Rightarrow> (out, w2, [Resolution res0, Call a res0])))
             \<and> (afterEachHandler (rt w) = None \<longrightarrow>
                  exec eng beh u w = (Returns, w, [Resolution res0]))))
   \<and> (handlers (rt w) = [] \<and> fallbackHandler (rt w) = None \<and> afterEachHandler (rt w) = None \<longrightarrow>
        exec eng beh u w = (Returns, w, [Resolution \<lparr>r_url = u, r_params = [], r_route = None\<rparr>]))
   \<and> (\<forall>w' t. exec eng beh u w = (Throws, w', t) \<longrightarrow>
        (\<exists>h r w0. t \<noteq> [] \<and> last t = Call h r \<and> beh h r w0 = (Throws, w')))"
proof (intro conjI allI impI)
  show "exec eng beh u w =
          (case beh v res1 w of
             (Throws, w1) \<Rightarrow> (Throws, w1, [Resolution res1, Call v res1])
           | (Returns, w1) \<Rightarrow>
               (case afterEachHandler (rt w1) of
                  None \<Rightarrow> (Returns, w1, [Resolution res1, Call v res1])
                | Some a \<Rightarrow>
                    (case beh a res1 w1 of
                       (out, w2) \<Rightarrow> (out, w2, [Resolution res1, Call v res1, Call a res1]))))"
    if "handlers (rt w) = pre @ (k, v) # post \<and> (\<forall>e \<in> set pre. \<not> key_matches eng u (fst e))
      \<and> key_matches eng u k \<and> res1 = \<lparr>r_url = u, r_params = spread (params_of eng u k), r_route = Some k\<rparr>"
    using that by (intro exec_hit) blast+
next
  fix f
  assume a: "(\<forall>e \<in> set (handlers (rt w)). \<not> key_matches eng u (fst e))
        \<and> res0 = \<lparr>r_url = u, r_params = [], r_route = None\<rparr>"
    and f: "fallbackHandler (rt w) = Some f"
  from a have m: "\<forall>e \<in> set (handlers (rt w)). \<not> key_matches eng u (fst e)"
    and r: "res0 = \<lparr>r_url = u, r_params = [], r_route = None\<rparr>" by blast+
  show "exec eng beh u w =
             (case beh f res0 w of
                (Throws, w1) \<Rightarrow> (Throws, w1, [Resolution res0, Call f res0])
              | (Returns, w1) \<Rightarrow>
                  (case afterEachHandler (rt w1) of
                     None \<Rightarrow> (Returns, w1, [Resolution res0, Call f res0])
                   | Some a \<Rightarrow>
                       (case beh a res0 w1 of
                          (out, w2) \<Rightarrow> (out, w2, [Resolution res0, Call f res0, Call a res0]))))"
    unfolding exec_miss[OF m r] f by simp
next
  fix a
  assume h: "(\<forall>e \<in> set (handlers (rt w)). \<not> key_matches eng u (fst e))
        \<and> res0 = \<lparr>r_url = u, r_params = [], r_route = None\<rparr>"
    and f: "fallbackHandler (rt w) = None" and a: "afterEachHandler (rt w) = Some a"
  from h have m: "\<forall>e \<in> set (handlers (rt w)). \<not> key_matches eng u (fst e)"
    and r: "res0 = \<lparr>r_url = u, r_params = [], r_route = None\<rparr>" by blast+
  show "exec eng beh u w = (case beh a res0 w of (out, w2) \<Rightarrow> (out, w2, [Resolution res0, Call a res0]))"
    unfolding exec_miss[OF m r] f a by simp
next
  assume h: "(\<forall>e \<in> set (handlers (rt w)). \<not> key_matches eng u (fst e))
        \<and> res0 = \<lparr>r_url = u, r_params = [], r_route = None\<rparr>"
    and f: "fallbackHandler (rt w) = None" and a: "afterEachHandler (rt w) = None"
  from h have m: "\<forall>e \<in> set (handlers (rt w)). \<not> key_matches eng u (fst e)"
    and r: "res0 = \<lparr>r_url = u, r_params = [], r_route = None\<rparr>" by blast+
  show "exec eng beh u w = (Returns, w, [Resolution res0])"
    unfolding exec_miss[OF m r] f a by simp
next
  assume h: "handlers (rt w) = [] \<and> fallbackHandler (rt w) = None \<and> afterEachHandler (rt w) = None"
  then have m: "\<forall>e \<in> set (handlers (rt w)). \<not> key_matches eng u (fst e)" by simp
  show "exec eng beh u w = (Returns, w, [Resolution \<lparr>r_url = u, r_params = [], r_route = None\<rparr>])"
    unfolding exec_miss[OF m refl] using h by simp
next
  fix w' t
  assume "exec eng beh u w = (Throws, w', t)"
  then show "\<exists>h r w0. t \<noteq> [] \<and> last t = Call h r \<and> beh h r w0 = (Throws, w')"
    by (rule exec_throws)
qed

text \<open>
  A witness for C6: a match, no match with a fallback, no match without any
  handler, and the empty registry.
\<close>

theorem handler_dispatch_witness:
  "\<forall>rest.
     exec (host_match rest) quiet ''#/home'' (page site ''#/home'')
     = (Returns, page site ''#/home'',
        [Resolution \<lparr>r_url = ''#/home'', r_params = [], r_route = Some (Str ''#/home'')\<rparr>,
         Call 1 \<lparr>r_url = ''#/home'', r_params = [], r_route = Some (Str ''#/home'')\<rparr>,
         Call 5 \<lparr>r_url = ''#/home'', r_params = [], r_route = Some (Str ''#/home'')\<rparr>])
   \<and> exec (host_match rest) quiet ''#/nowhere'' (page site ''#/nowhere'')
     = (Returns, page site ''#/nowhere'',
        [Resolution \<lparr>r_url = ''#/nowhere'', r_params = [], r_route = None\<rparr>,
         Call 4 \<lparr>r_url = ''#/nowhere'', r_params = [], r_route = None\<rparr>,
         Call 5 \<lparr>r_url = ''#/nowhere'', r_params = [], r_route = None\<rparr>])
   \<and> exec (host_match rest) quiet ''#/nowhere'' (page bare ''#/nowhere'')
     = (Returns, page bare ''#/nowhere'', [Resolution \<lparr>r_url = ''#/nowhere'', r_params = [], r_route = None\<rparr>])
   \<and> exec (host_match rest) quiet [] (page (Router None) [])
     = (Returns, page (Router None) [], [Resolution \<lparr>r_url = [], r_params = [], r_route = None\<rparr>])"
  apply (intro allI)
  subgoal for rest
  proof -
    let ?W = "page site ''#/home''"
    let ?R1 = "\<lparr>r_url = ''#/home'', r_params = [], r_route = Some (Str ''#/home'')\<rparr>"
    have a1: "handlers (rt ?W) = [] @ (Str ''#/home'', 1) # [(Re users_rx, 2), (Str ''#/users/7'', 3)]"
      by code_simp
    have a2: "\<forall>e \<in> set ([] :: (route_def \<times> handler) list). \<not> key_matches (host_match rest) ''#/home'' (fst e)"
      by simp
    have a3: "key_matches (host_match rest) ''#/home'' (Str ''#/home'')"
      by simp
    have a4: "?R1 = \<lparr>r_url = ''#/home'', r_params = spread (params_of (host_match rest) ''#/home'' (Str ''#/home'')),
                     r_route = Some (Str ''#/home'')\<rparr>"
      by simp
    have a5: "afterEachHandler (rt ?W) = Some 5"
      by code_simp
    note d1 = handler_dispatch[where w = ?W and eng = "host_match rest" and u = "''#/home''" and beh = quiet
        and pre = "[]" and k = "Str ''#/home''" and v = 1 and post = "[(Re users_rx, 2), (Str ''#/users/7'', 3)]"
        and ?res1.0 = ?R1, THEN conjunct1, rule_format, OF conjI[OF a1 conjI[OF a2 conjI[OF a3 a4]]]]
    have e1: "exec (host_match rest) quiet ''#/home'' ?W = (Returns, ?W, [Resolution ?R1, Call 1 ?R1, Call 5 ?R1])"
      unfolding d1 by (simp add: quiet_def a5)
    let ?V = "page site ''#/nowhere''"
    let ?R0 = "\<lparr>r_url = ''#/nowhere'', r_params = [], r_route = None\<rparr>"
    have b1: "\<forall>e \<in> set (handlers (rt ?V)). \<not> key_matches (host_match rest) ''#/nowhere'' (fst e)"
      by code_simp
    have b2: "fallbackHandler (rt ?V) = Some 4"
      by code_simp
    have b3: "afterEachHandler (rt ?V) = Some 5"
      by code_simp
    note d2 = handler_dispatch[where w = ?V and eng = "host_match rest" and u = "''#/nowhere''" and beh = quiet
        and ?res0.0 = ?R0, THEN conjunct2, THEN conjunct1, rule_format, OF conjI[OF b1 refl],
        THEN conjunct1, rule_format, OF b2]
    have e2: "exec (host_match rest) quiet ''#/nowhere'' ?V = (Returns, ?V, [Resolution ?R0, Call 4 ?R0, Call 5 ?R0])"
      unfolding d2 by (simp add: quiet_def b3)
    let ?B = "page bare ''#/nowhere''"
    have c1: "\<forall>e \<in> set (handlers (rt ?B)). \<not> key_matches (host_match rest) ''#/nowhere'' (fst e)"
      by code_simp
    have c2: "fallbackHandler (rt ?B) = None"
      by code_simp
    have c3: "afterEachHandler (rt ?B) = None"
      by code_simp
    note d3 = handler_dispatch[where w = ?B and eng = "host_match rest" and u = "''#/nowhere''" and beh = quiet
        and ?res0.0 = ?R0, THEN conjunct2, THEN conjunct1, rule_format, OF conjI[OF c1 refl],
        THEN conjunct2, rule_format, OF c2, THEN conjunct2, rule_format, OF c3]
    let ?E = "page (Router None) []"
    have f1: "handlers (rt ?E) = [] \<and> fallbackHandler (rt ?E) = None \<and> afterEachHandler (rt ?E) = None"
      by (simp add: page_def Router_def)
    note d4 = handler_dispatch[where w = ?E and eng = "host_match rest" and u = "[]" and beh = quiet,
        THEN conjunct2, THEN conjunct2, THEN conjunct1, rule_format, OF f1]
    from e1 e2 d3 d4 show ?thesis by blast
  qed
  done

text \<open>
  C10. If no handler changes the registry, the fallback slot, the
  post-navigation slot or the initial route, a resolution leaves all four as
  they were.
\<close>

theorem resolution_frame:
  assumes "\<forall>h r w0. slots (snd (beh h r w0)) = slots w0"
  shows "slots (fst (snd (exec eng beh u w))) = slots w"
proof -
  have b: "beh h r w0 = (out, w1) \<Longrightarrow> slots w1 = slots w0" for h r w0 out w1
    using assms[rule_format, of h r w0] by simp
  show ?thesis
    by (auto simp: exec_unfold Let_def dest!: b split: option.splits prod.splits outcome.splits)
qed

text \<open>A witness for C10.\<close>

theorem resolution_frame_witness:
  "\<forall>rest.
     (\<forall>h r w0. slots (snd (quiet h r w0)) = slots w0)
   \<and> slots (fst (snd (exec (host_match rest) quiet ''#/users/7'' (page site ''#/users/7'')))) = slots (page site ''#/users/7'')
   \<and> handlers (rt (fst (snd (exec (host_match rest) quiet ''#/users/7'' (page site ''#/users/7'')))))
        = [(Str ''#/home'', 1), (Re users_rx, 2), (Str ''#/users/7'', 3)]"
  apply (intro allI)
  subgoal for rest
  proof -
    have q: "\<forall>h r w0. slots (snd (quiet h r w0)) = slots w0"
      by (simp add: quiet_def)
    have h: "handlers (rt (page site ''#/users/7'')) = [(Str ''#/home'', 1), (Re users_rx, 2), (Str ''#/users/7'', 3)]"
      by code_simp
    from resolution_frame[OF q, of "host_match rest" "''#/users/7''" "page site ''#/users/7''"] q h
    show ?thesis by (simp add: slots_def)
  qed
  done

text \<open>
  The assumption of C10 is needed: a handler that registers a route changes
  the registry during the resolution.
\<close>

lemma handler_can_change_registry:
  "handlers (rt (fst (snd (exec (host_match rest) (registering 1) ''#/home'' (page bare ''#/home'')))))
     = [(Str ''#/home'', 1), (Str ''#/new'', 9)]
   \<and> handlers (rt (page bare ''#/home'')) = [(Str ''#/home'', 1)]"
  by code_simp

section \<open>Properties of activation and deactivation\<close>

lemma run_listeners_one:
  "\<not> aborted (rt w) \<Longrightarrow>
   run_listeners eng beh (Suc 0) w = (case exec eng beh (hash w) w of (out, w1, t1) \<Rightarrow> (w1, t1))"
  by (simp split: prod.splits)

text \<open>What the page's fragment is when \<^verbatim>\<open>location.hash\<close> reads empty, and what an assignment makes of it.\<close>

lemma hash_empty: "hash w = [] \<longleftrightarrow> fragment w = None \<or> fragment w = Some []"
  by (simp add: hash_def split: option.splits)

lemma set_hash_changes:
  assumes "hash w = []" and "fragment_of s \<noteq> []"
  shows "set_hash s w = w\<lparr>fragment := Some (fragment_of s), pending := pending w + 1\<rparr>"
  using assms by (auto simp: set_hash_def hash_empty)

lemma fragment_set_hash: "fragment (set_hash s w) = Some (fragment_of s)"
  by (simp add: set_hash_def)

lemma tab_or_newline_encoded: "tab_or_newline c \<Longrightarrow> fragment_encoded c"
  unfolding tab_or_newline_def fragment_encoded_def
  by (elim disjE) simp_all

text \<open>
  A value that begins with \<^verbatim>\<open>#\<close> and has no character of the
  percent-encode set after it is read back as it was written.
\<close>

lemma fragment_of_plain:
  assumes "list_all (\<lambda>c. \<not> fragment_encoded c) f"
  shows "fragment_of (CHR ''#'' # f) = f"
proof -
  have a: "filter (\<lambda>c. \<not> tab_or_newline c) f = f"
    using assms tab_or_newline_encoded by (induction f) auto
  have b: "concat (map (\<lambda>c. if fragment_encoded c then percent c else [c]) f) = f"
    using assms by (induction f) auto
  show ?thesis by (simp add: fragment_of_def a b)
qed

text \<open>A resolution leaves the fragment where the handlers leave it.\<close>

lemma exec_fragment:
  assumes "\<forall>h r w0. fragment (snd (beh h r w0)) = fragment w0"
  shows "fragment (fst (snd (exec eng beh u w))) = fragment w"
proof -
  have b: "beh h r w0 = (out, w1) \<Longrightarrow> fragment w1 = fragment w0" for h r w0 out w1
    using assms[rule_format, of h r w0] by simp
  show ?thesis
    by (auto simp: exec_unfold Let_def dest!: b split: option.splits prod.splits outcome.splits)
qed

text \<open>
  C7. If an initial route is set and the fragment is empty, \<^verbatim>\<open>connect\<close>
  assigns the initial route to \<^verbatim>\<open>location.hash\<close> and performs no
  resolution itself: the fragment of the page is then the one that the
  initial route names, and \<^verbatim>\<open>location.hash\<close> reads the initial route back
  if it is written as the page writes it (\<^verbatim>\<open>#\<close>, then characters that
  need no encoding). The assignment of a fragment that is not empty to a page
  that has none queues one navigation signal, and on a router that is being
  activated (its signal not aborted, no listener of it attached yet) the
  delivery of that signal performs exactly one resolution, of what
  \<^verbatim>\<open>location.hash\<close> then reads. In every other case (no initial route, or a
  fragment that is not empty) \<^verbatim>\<open>connect\<close> is the subscription followed
  by exactly one resolution of the current fragment; it assigns nothing to
  the fragment and queues nothing, so that the fragment is what it was unless
  a handler of the caller has changed it. Whether an initial route is set is
  a test of truthiness in the code: the empty string counts as none.
\<close>

theorem connect_activation:
  "(startAt (rt w) = Some s \<and> s \<noteq> [] \<and> hash w = [] \<longrightarrow>
       connect eng beh w = (Returns, set_hash s (addEventListener w), [])
       \<and> fragment (set_hash s (addEventListener w)) = Some (fragment_of s)
       \<and> (\<forall>f. s = CHR ''#'' # f \<and> f \<noteq> [] \<and> list_all (\<lambda>c. \<not> fragment_encoded c) f \<longrightarrow>
                hash (set_hash s (addEventListener w)) = s)
       \<and> (fragment_of s \<noteq> [] \<longrightarrow>
            hash (set_hash s (addEventListener w)) = CHR ''#'' # fragment_of s
            \<and> pending (set_hash s (addEventListener w)) = Suc (pending w)
            \<and> (\<not> aborted (rt w) \<and> listeners w = 0 \<longrightarrow>
                 listeners (set_hash s (addEventListener w)) = 1
                 \<and> (\<exists>res w' t. deliver eng beh (set_hash s (addEventListener w)) = (w', Resolution res # t)
                        \<and> r_url res = CHR ''#'' # fragment_of s
                        \<and> resolutions (Resolution res # t) = 1))))
   \<and> (\<not> (\<exists>s. startAt (rt w) = Some s \<and> s \<noteq> [] \<and> hash w = []) \<longrightarrow>
       connect eng beh w = exec eng beh (hash w) (addEventListener w)
       \<and> fragment (addEventListener w) = fragment w
       \<and> pending (addEventListener w) = pending w
       \<and> resolutions (snd (snd (connect eng beh w))) = 1
       \<and> ((\<forall>h r w0. fragment (snd (beh h r w0)) = fragment w0) \<longrightarrow>
             fragment (fst (snd (connect eng beh w))) = fragment w
             \<and> hash (fst (snd (connect eng beh w))) = hash w))"
proof (intro conjI impI allI)
  assume a: "startAt (rt w) = Some s \<and> s \<noteq> [] \<and> hash w = []"
  then show "connect eng beh w = (Returns, set_hash s (addEventListener w), [])"
    by (simp add: connect_def Let_def addEventListener_def hash_def)
  show "fragment (set_hash s (addEventListener w)) = Some (fragment_of s)"
    by (rule fragment_set_hash)
next
  fix f
  assume p: "s = CHR ''#'' # f \<and> f \<noteq> [] \<and> list_all (\<lambda>c. \<not> fragment_encoded c) f"
  then have "fragment_of s = f" by (simp add: fragment_of_plain)
  with p show "hash (set_hash s (addEventListener w)) = s"
    by (simp add: hash_def fragment_set_hash)
next
  assume ne: "fragment_of s \<noteq> []"
  then show "hash (set_hash s (addEventListener w)) = CHR ''#'' # fragment_of s"
    by (simp add: hash_def fragment_set_hash)
next
  assume a: "startAt (rt w) = Some s \<and> s \<noteq> [] \<and> hash w = []" and ne: "fragment_of s \<noteq> []"
  from a have h0: "hash (addEventListener w) = []"
    by (simp add: addEventListener_def hash_def)
  show "pending (set_hash s (addEventListener w)) = Suc (pending w)"
    unfolding set_hash_changes[OF h0 ne] by (simp add: addEventListener_def)
next
  assume a: "startAt (rt w) = Some s \<and> s \<noteq> [] \<and> hash w = []" and ne: "fragment_of s \<noteq> []"
    and b: "\<not> aborted (rt w) \<and> listeners w = 0"
  from a have h0: "hash (addEventListener w) = []"
    by (simp add: addEventListener_def hash_def)
  note sh = set_hash_changes[OF h0 ne]
  show "listeners (set_hash s (addEventListener w)) = 1"
    unfolding sh using b by (simp add: addEventListener_def)
  let ?w1 = "set_hash s (addEventListener w)"
  let ?w2 = "?w1\<lparr>pending := pending ?w1 - 1\<rparr>"
  let ?u = "CHR ''#'' # fragment_of s"
  have l: "listeners ?w2 = Suc 0" and na: "\<not> aborted (rt ?w2)" and h: "hash ?w2 = ?u"
    and pd: "pending ?w1 \<noteq> 0"
    unfolding sh using b ne by (simp_all add: addEventListener_def hash_def)
  have d: "deliver eng beh ?w1 = (case exec eng beh ?u ?w2 of (out, w1, t1) \<Rightarrow> (w1, t1))"
    using run_listeners_one[OF na, of eng beh] l h pd
    by (simp add: deliver_def popstate_def)
  obtain out w' t where e: "exec eng beh ?u ?w2 = (out, w', Resolution (resolved_of ?u (scan eng ?u (handlers (rt ?w2)) vars0)) # t)"
    using exec_trace by blast
  have "resolutions (snd (snd (exec eng beh ?u ?w2))) = 1"
    by (rule resolutions_exec)
  with e have "resolutions (Resolution (resolved_of ?u (scan eng ?u (handlers (rt ?w2)) vars0)) # t) = 1"
    by simp
  with d e show "\<exists>res w' t. deliver eng beh ?w1 = (w', Resolution res # t)
                   \<and> r_url res = ?u \<and> resolutions (Resolution res # t) = 1"
    by (auto simp: r_url_resolved_of)
next
  assume n: "\<not> (\<exists>s. startAt (rt w) = Some s \<and> s \<noteq> [] \<and> hash w = [])"
  then show c: "connect eng beh w = exec eng beh (hash w) (addEventListener w)"
    by (auto simp: connect_def Let_def addEventListener_def hash_def split: option.splits)
  show "fragment (addEventListener w) = fragment w"
    by (simp add: addEventListener_def)
  show "pending (addEventListener w) = pending w"
    by (simp add: addEventListener_def)
  show "resolutions (snd (snd (connect eng beh w))) = 1"
    unfolding c by (rule resolutions_exec)
  assume q: "\<forall>h r w0. fragment (snd (beh h r w0)) = fragment w0"
  show fr: "fragment (fst (snd (connect eng beh w))) = fragment w"
    unfolding c exec_fragment[OF q] by (simp add: addEventListener_def)
  show "hash (fst (snd (connect eng beh w))) = hash w"
    by (simp add: hash_def fr)
qed

text \<open>
  A witness for C7: the router of the examples, whose initial route is
  \<^verbatim>\<open>#/home\<close>, on a page without fragment and on a page with the fragment
  \<^verbatim>\<open>#/users/7\<close>; and a router with the initial route \<^verbatim>\<open>#/a b\<close>, which
  the page reads back as \<^verbatim>\<open>#/a%20b\<close>.
\<close>

theorem connect_activation_witness:
  "\<forall>rest.
     startAt (rt (page site [])) = Some ''#/home'' \<and> ''#/home'' \<noteq> [] \<and> hash (page site []) = []
   \<and> fragment_of ''#/home'' = ''/home''
   \<and> \<not> aborted (rt (page site [])) \<and> listeners (page site []) = 0
   \<and> connect (host_match rest) quiet (page site [])
        = (Returns, \<lparr>rt = site, fragment = Some ''/home'', listeners = 1, pending = 1\<rparr>, [])
   \<and> hash \<lparr>rt = site, fragment = Some ''/home'', listeners = 1, pending = 1\<rparr> = ''#/home''
   \<and> deliver (host_match rest) quiet \<lparr>rt = site, fragment = Some ''/home'', listeners = 1, pending = 1\<rparr>
        = (\<lparr>rt = site, fragment = Some ''/home'', listeners = 1, pending = 0\<rparr>,
           [Resolution \<lparr>r_url = ''#/home'', r_params = [], r_route = Some (Str ''#/home'')\<rparr>,
            Call 1 \<lparr>r_url = ''#/home'', r_params = [], r_route = Some (Str ''#/home'')\<rparr>,
            Call 5 \<lparr>r_url = ''#/home'', r_params = [], r_route = Some (Str ''#/home'')\<rparr>])
   \<and> connect (host_match rest) quiet (page (Router (Some ''#/a b'')) [])
        = (Returns, \<lparr>rt = Router (Some ''#/a b''), fragment = Some ''/a%20b'', listeners = 1, pending = 1\<rparr>, [])
   \<and> deliver (host_match rest) quiet \<lparr>rt = Router (Some ''#/a b''), fragment = Some ''/a%20b'', listeners = 1, pending = 1\<rparr>
        = (\<lparr>rt = Router (Some ''#/a b''), fragment = Some ''/a%20b'', listeners = 1, pending = 0\<rparr>,
           [Resolution \<lparr>r_url = ''#/a%20b'', r_params = [], r_route = None\<rparr>])
   \<and> \<not> (\<exists>s. startAt (rt (page site ''#/users/7'')) = Some s \<and> s \<noteq> [] \<and> hash (page site ''#/users/7'') = [])
   \<and> (\<forall>h r w0. fragment (snd (quiet h r w0)) = fragment w0)
   \<and> connect (host_match rest) quiet (page site ''#/users/7'')
        = exec (host_match rest) quiet ''#/users/7'' \<lparr>rt = site, fragment = Some ''/users/7'', listeners = 1, pending = 0\<rparr>
   \<and> resolutions (snd (snd (connect (host_match rest) quiet (page site ''#/users/7'')))) = 1
   \<and> hash (fst (snd (connect (host_match rest) quiet (page site ''#/users/7'')))) = ''#/users/7''"
  apply (intro allI)
  subgoal for rest
  proof -
    have a: "startAt (rt (page site [])) = Some ''#/home'' \<and> ''#/home'' \<noteq> [] \<and> hash (page site []) = []"
      by code_simp
    have fo: "fragment_of ''#/home'' = ''/home''"
      by code_simp
    have b: "\<not> aborted (rt (page site [])) \<and> listeners (page site []) = 0"
      by code_simp
    have w1: "set_hash ''#/home'' (addEventListener (page site [])) = \<lparr>rt = site, fragment = Some ''/home'', listeners = 1, pending = 1\<rparr>"
      using b fo by (simp add: set_hash_def addEventListener_def page_def)
    note t1 = connect_activation[where w = "page site []" and s = "''#/home''" and eng = "host_match rest" and beh = quiet,
        THEN conjunct1, rule_format, OF a]
    have c: "connect (host_match rest) quiet (page site []) = (Returns, \<lparr>rt = site, fragment = Some ''/home'', listeners = 1, pending = 1\<rparr>, [])"
      using t1 w1 by simp
    have hh: "hash \<lparr>rt = site, fragment = Some ''/home'', listeners = 1, pending = 1\<rparr> = ''#/home''"
      using t1 w1 fo by simp
    have d: "deliver (host_match rest) quiet \<lparr>rt = site, fragment = Some ''/home'', listeners = 1, pending = 1\<rparr>
          = (\<lparr>rt = site, fragment = Some ''/home'', listeners = 1, pending = 0\<rparr>,
             [Resolution \<lparr>r_url = ''#/home'', r_params = [], r_route = Some (Str ''#/home'')\<rparr>,
              Call 1 \<lparr>r_url = ''#/home'', r_params = [], r_route = Some (Str ''#/home'')\<rparr>,
              Call 5 \<lparr>r_url = ''#/home'', r_params = [], r_route = Some (Str ''#/home'')\<rparr>])"
      by code_simp
    let ?r = "Router (Some ''#/a b'')"
    have a3: "startAt (rt (page ?r [])) = Some ''#/a b'' \<and> ''#/a b'' \<noteq> [] \<and> hash (page ?r []) = []"
      by code_simp
    have fo3: "fragment_of ''#/a b'' = ''/a%20b''"
      by code_simp
    have w3: "set_hash ''#/a b'' (addEventListener (page ?r [])) = \<lparr>rt = ?r, fragment = Some ''/a%20b'', listeners = 1, pending = 1\<rparr>"
      using fo3 by (simp add: set_hash_def addEventListener_def page_def Router_def)
    note t3 = connect_activation[where w = "page ?r []" and s = "''#/a b''" and eng = "host_match rest" and beh = quiet,
        THEN conjunct1, rule_format, OF a3]
    have c3: "connect (host_match rest) quiet (page ?r []) = (Returns, \<lparr>rt = ?r, fragment = Some ''/a%20b'', listeners = 1, pending = 1\<rparr>, [])"
      using t3 w3 by simp
    have d3: "deliver (host_match rest) quiet \<lparr>rt = ?r, fragment = Some ''/a%20b'', listeners = 1, pending = 1\<rparr>
          = (\<lparr>rt = ?r, fragment = Some ''/a%20b'', listeners = 1, pending = 0\<rparr>,
             [Resolution \<lparr>r_url = ''#/a%20b'', r_params = [], r_route = None\<rparr>])"
      by code_simp
    have n: "\<not> (\<exists>s. startAt (rt (page site ''#/users/7'')) = Some s \<and> s \<noteq> [] \<and> hash (page site ''#/users/7'') = [])"
      by (simp add: page_def hash_def)
    have q: "\<forall>h r w0. fragment (snd (quiet h r w0)) = fragment w0"
      by (simp add: quiet_def)
    have w2: "addEventListener (page site ''#/users/7'') = \<lparr>rt = site, fragment = Some ''/users/7'', listeners = 1, pending = 0\<rparr>"
      using b by (simp add: addEventListener_def page_def)
    note t2 = connect_activation[where w = "page site ''#/users/7''" and eng = "host_match rest" and beh = quiet,
        THEN conjunct2, rule_format, OF n]
    have e: "connect (host_match rest) quiet (page site ''#/users/7'')
          = exec (host_match rest) quiet ''#/users/7'' \<lparr>rt = site, fragment = Some ''/users/7'', listeners = 1, pending = 0\<rparr>"
      using t2 w2 by (simp add: page_def hash_def)
    have r1: "resolutions (snd (snd (connect (host_match rest) quiet (page site ''#/users/7'')))) = 1"
      using t2 by blast
    from t2 have "(\<forall>h r w0. fragment (snd (quiet h r w0)) = fragment w0) \<longrightarrow>
             fragment (fst (snd (connect (host_match rest) quiet (page site ''#/users/7'')))) = fragment (page site ''#/users/7'')
             \<and> hash (fst (snd (connect (host_match rest) quiet (page site ''#/users/7'')))) = hash (page site ''#/users/7'')"
      by blast
    with q have h2: "hash (fst (snd (connect (host_match rest) quiet (page site ''#/users/7'')))) = ''#/users/7''"
      by (simp add: page_def hash_def)
    from a fo b c hh d c3 d3 n q e r1 h2 show ?thesis by blast
  qed
  done

text \<open>
  The empty string as initial route counts as none: on a page without
  fragment \<^verbatim>\<open>connect\<close> resolves at once. And an initial route that names
  the empty fragment, a lone \<^verbatim>\<open>#\<close>, leaves a URL that ends in \<^verbatim>\<open>#\<close> as
  it is: nothing is queued.
\<close>

lemma connect_empty_startAt:
  "connect (host_match rest) quiet (page (Router (Some [])) [])
       = (Returns, \<lparr>rt = Router (Some []), fragment = None, listeners = 1, pending = 0\<rparr>,
          [Resolution \<lparr>r_url = [], r_params = [], r_route = None\<rparr>])"
  by code_simp

lemma connect_blank_startAt:
  "connect (host_match rest) quiet \<lparr>rt = Router (Some ''#''), fragment = Some [], listeners = 0, pending = 0\<rparr>
       = (Returns, \<lparr>rt = Router (Some ''#''), fragment = Some [], listeners = 1, pending = 0\<rparr>, [])"
  by code_simp

text \<open>A deactivated router stays deactivated, whatever is done to it.\<close>

lemma exec_dead:
  assumes "\<forall>h r w0. dead w0 \<longrightarrow> dead (snd (beh h r w0))" and "dead w"
  shows "dead (fst (snd (exec eng beh u w)))"
proof -
  have b: "beh h r w0 = (out, w1) \<Longrightarrow> dead w0 \<Longrightarrow> dead w1" for h r w0 out w1
    using assms(1)[rule_format, of w0 h r] by simp
  show ?thesis using assms(2)
    by (auto simp: exec_unfold Let_def dest: b split: option.splits prod.splits outcome.splits)
qed

lemma popstate_dead: "dead w \<Longrightarrow> popstate eng beh w = (w, [])"
  by (simp add: popstate_def dead_def)

lemma connect_aborted:
  "aborted (rt w) \<Longrightarrow>
   connect eng beh w =
     (case startAt (rt w) of
        Some s \<Rightarrow> if s \<noteq> [] \<and> hash w = [] then (Returns, set_hash s w, []) else exec eng beh (hash w) w
      | None \<Rightarrow> exec eng beh (hash w) w)"
  by (simp add: connect_def addEventListener_def)

lemma connect_dead:
  assumes "\<forall>h r w0. dead w0 \<longrightarrow> dead (snd (beh h r w0))" and "dead w"
  shows "dead (fst (snd (connect eng beh w)))"
proof -
  have a: "aborted (rt w)" using assms(2) by (simp add: dead_def)
  have s: "dead (set_hash s w)" for s using assms(2) by (simp add: dead_def set_hash_def)
  show ?thesis
    unfolding connect_aborted[OF a]
    using exec_dead[OF assms, of eng "hash w"] s
    by (auto split: option.splits)
qed

lemma step_dead:
  assumes "\<forall>h r w0. dead w0 \<longrightarrow> dead (snd (beh h r w0))" and "dead w"
  shows "dead (fst (step eng beh x w)) \<and> (x = Popstate \<longrightarrow> snd (step eng beh x w) = [])"
proof (cases x)
  case Popstate
  then show ?thesis using assms(2) by (simp add: popstate_dead)
next
  case Connect
  then show ?thesis using connect_dead[OF assms, of eng]
    by (cases "connect eng beh w") auto
qed (use assms(2) in \<open>simp_all add: dead_def set_hash_def on_def off_def fallback_def afterEach_def disconnect_def\<close>)

lemma run_dead:
  assumes "\<forall>h r w0. dead w0 \<longrightarrow> dead (snd (beh h r w0))" and "dead w"
  shows "dead (fst (run eng beh ops w)) \<and> (\<forall>(x, t) \<in> set (snd (run eng beh ops w)). x = Popstate \<longrightarrow> t = [])"
  using assms(2)
proof (induction ops arbitrary: w)
  case Nil
  then show ?case by simp
next
  case (Cons x xs)
  obtain w1 t where s: "step eng beh x w = (w1, t)" by (cases "step eng beh x w")
  from step_dead[OF assms(1) Cons.prems, of eng x]
  have "dead (fst (step eng beh x w))" and "x = Popstate \<longrightarrow> snd (step eng beh x w) = []"
    by blast+
  then have d1: "dead w1" and p: "x = Popstate \<longrightarrow> t = []"
    unfolding s by simp_all
  obtain w2 l where r: "run eng beh xs w1 = (w2, l)" by (cases "run eng beh xs w1")
  from Cons.IH[OF d1] r have "dead w2" and "\<forall>(x, t) \<in> set l. x = Popstate \<longrightarrow> t = []"
    by simp_all
  with s r p show ?case by simp
qed

lemma dead_disconnect: "dead (disconnect w)"
  by (simp add: dead_def disconnect_def)

text \<open>
  C8. After \<^verbatim>\<open>disconnect\<close> the signal is aborted and no listener is
  attached. After any sequence of navigation signals, changes of the fragment
  and calls of the router's methods (\<^verbatim>\<open>connect\<close> among them) that follows,
  this is still so, and no navigation signal of the sequence, nor one that
  comes after it, has triggered a resolution. The handlers are assumed to do
  nothing to a deactivated router that its methods could not do.
\<close>

theorem disconnect_is_final:
  assumes "\<forall>h r w0. dead w0 \<longrightarrow> dead (snd (beh h r w0))"
  shows "aborted (rt (disconnect w)) \<and> listeners (disconnect w) = 0
       \<and> dead (fst (run eng beh ops (disconnect w)))
       \<and> (\<forall>(x, t) \<in> set (snd (run eng beh ops (disconnect w))). x = Popstate \<longrightarrow> t = [])
       \<and> popstate eng beh (fst (run eng beh ops (disconnect w))) = (fst (run eng beh ops (disconnect w)), [])"
  using run_dead[OF assms dead_disconnect, of eng ops w] dead_disconnect[of w]
  by (simp add: popstate_dead dead_def)

text \<open>
  A witness for C8: a connected router resolves on a navigation signal; after
  \<^verbatim>\<open>disconnect\<close> the three signals of the sequence trigger nothing, and
  only \<^verbatim>\<open>connect\<close> performs its one resolution.
\<close>

theorem disconnect_is_final_witness:
  "\<forall>rest.
     snd (popstate (host_match rest) quiet \<lparr>rt = site, fragment = Some ''/users/7'', listeners = 1, pending = 0\<rparr>)
       = [Resolution \<lparr>r_url = ''#/users/7'', r_params = [(''id'', Some ''7'')], r_route = Some (Re users_rx)\<rparr>,
          Call 2 \<lparr>r_url = ''#/users/7'', r_params = [(''id'', Some ''7'')], r_route = Some (Re users_rx)\<rparr>,
          Call 5 \<lparr>r_url = ''#/users/7'', r_params = [(''id'', Some ''7'')], r_route = Some (Re users_rx)\<rparr>]
   \<and> dead (fst (run (host_match rest) quiet [SetHash ''#/home'', Popstate, Connect, Popstate, On (One (Str ''#/a'')) 7, SetHash ''#/a'', Popstate]
                 (disconnect \<lparr>rt = site, fragment = Some ''/users/7'', listeners = 1, pending = 0\<rparr>)))
   \<and> map (\<lambda>(x, t). (x, length t))
         (snd (run (host_match rest) quiet [SetHash ''#/home'', Popstate, Connect, Popstate, On (One (Str ''#/a'')) 7, SetHash ''#/a'', Popstate]
                 (disconnect \<lparr>rt = site, fragment = Some ''/users/7'', listeners = 1, pending = 0\<rparr>)))
       = [(SetHash ''#/home'', 0), (Popstate, 0), (Connect, 3), (Popstate, 0), (On (One (Str ''#/a'')) 7, 0),
          (SetHash ''#/a'', 0), (Popstate, 0)]"
  apply (intro allI)
  subgoal for rest
  proof -
    have q: "\<forall>h r w0. dead w0 \<longrightarrow> dead (snd (quiet h r w0))"
      by (simp add: quiet_def)
    have p: "snd (popstate (host_match rest) quiet \<lparr>rt = site, fragment = Some ''/users/7'', listeners = 1, pending = 0\<rparr>)
         = [Resolution \<lparr>r_url = ''#/users/7'', r_params = [(''id'', Some ''7'')], r_route = Some (Re users_rx)\<rparr>,
            Call 2 \<lparr>r_url = ''#/users/7'', r_params = [(''id'', Some ''7'')], r_route = Some (Re users_rx)\<rparr>,
            Call 5 \<lparr>r_url = ''#/users/7'', r_params = [(''id'', Some ''7'')], r_route = Some (Re users_rx)\<rparr>]"
      by code_simp
    have m: "map (\<lambda>(x, t). (x, length t))
           (snd (run (host_match rest) quiet [SetHash ''#/home'', Popstate, Connect, Popstate, On (One (Str ''#/a'')) 7, SetHash ''#/a'', Popstate]
                   (disconnect \<lparr>rt = site, fragment = Some ''/users/7'', listeners = 1, pending = 0\<rparr>)))
         = [(SetHash ''#/home'', 0), (Popstate, 0), (Connect, 3), (Popstate, 0), (On (One (Str ''#/a'')) 7, 0),
            (SetHash ''#/a'', 0), (Popstate, 0)]"
      by code_simp
    from disconnect_is_final[OF q, of "\<lparr>rt = site, fragment = Some ''/users/7'', listeners = 1, pending = 0\<rparr>" "host_match rest"
        "[SetHash ''#/home'', Popstate, Connect, Popstate, On (One (Str ''#/a'')) 7, SetHash ''#/a'', Popstate]"]
      p m
    show ?thesis by blast
  qed
  done



end
